theory Spec2Isabelle
  imports Main
begin

section \<open>Calendar dates\<close>

text \<open>
  The views build dates with Python's \<^verbatim>\<open>datetime.date(year, month, day)\<close>, which raises
  \<^verbatim>\<open>ValueError\<close> unless \<^verbatim>\<open>MINYEAR <= year <= MAXYEAR\<close>, \<^verbatim>\<open>1 <= month <= 12\<close> and
  \<^verbatim>\<open>1 <= day <= _days_in_month(year, month)\<close>. A date value is a record of its three
  components; the constructor is \<open>mk_date\<close>, whose \<open>Inl\<close> result is the raised exception.
\<close>

datatype error = ValueError | AttributeError | DoesNotExist

record date =
  year :: int
  month :: int
  day :: int

definition MINYEAR :: int where
  "MINYEAR = 1"

definition MAXYEAR :: int where
  "MAXYEAR = 9999"

definition is_leap :: "int \<Rightarrow> bool" where
  "is_leap y \<longleftrightarrow> y mod 4 = 0 \<and> (y mod 100 \<noteq> 0 \<or> y mod 400 = 0)"

definition days_in_month :: "int \<Rightarrow> int \<Rightarrow> int" where
  "days_in_month y m =
     (if m = 2 \<and> is_leap y then 29
      else if m = 2 then 28
      else if m = 4 \<or> m = 6 \<or> m = 9 \<or> m = 11 then 30
      else 31)"

definition mk_date :: "int \<Rightarrow> int \<Rightarrow> int \<Rightarrow> error + date" where
  "mk_date y m d =
     (if \<not> (MINYEAR \<le> y \<and> y \<le> MAXYEAR) then Inl ValueError
      else if \<not> (1 \<le> m \<and> m \<le> 12) then Inl ValueError
      else if \<not> (1 \<le> d \<and> d \<le> days_in_month y m) then Inl ValueError
      else Inr \<lparr>year = y, month = m, day = d\<rparr>)"

text \<open>The dates Python can hold: the values on which \<open>mk_date\<close> succeeds.\<close>

definition year_ok :: "int \<Rightarrow> bool" where
  "year_ok y \<longleftrightarrow> MINYEAR \<le> y \<and> y \<le> MAXYEAR"

definition valid_ymd :: "int \<Rightarrow> int \<Rightarrow> int \<Rightarrow> bool" where
  "valid_ymd y m d \<longleftrightarrow> year_ok y \<and> 1 \<le> m \<and> m \<le> 12 \<and> 1 \<le> d \<and> d \<le> days_in_month y m"

definition valid_date :: "date \<Rightarrow> bool" where
  "valid_date dt \<longleftrightarrow> valid_ymd (year dt) (month dt) (day dt)"

subsection \<open>EventService.get_safe_date\<close>

text \<open>
  \<^verbatim>\<open>try: return date(year, month, day)
  except ValueError:
      if month == 2 and day == 29: return date(year, 2, 28)
      raise\<close>
  The second \<^verbatim>\<open>date(year, 2, 28)\<close> is outside the \<^verbatim>\<open>try\<close>, so it can raise again.
\<close>

definition get_safe_date :: "int \<Rightarrow> int \<Rightarrow> int \<Rightarrow> error + date" where
  "get_safe_date y m d =
     (case mk_date y m d of
        Inr dt \<Rightarrow> Inr dt
      | Inl e \<Rightarrow> (if m = 2 \<and> d = 29 then mk_date y 2 28 else Inl e))"

subsection \<open>EventService.calculate_yearly_start_year\<close>

text \<open>
  User-visible texts are datatype values that carry the interpolated data of the
  source's f-strings. \<^verbatim>\<open>timezone.now().year\<close> is the parameter \<open>current_year\<close>.
\<close>

datatype message =
    SeriesRebased int
  | DuplicateExists date
  | SeriesNotCreated
  | InvalidDateFormat
  | Feb29NotForYearly
  | SeriesHeadProtected string

definition calculate_yearly_start_year :: "int \<Rightarrow> date \<Rightarrow> int \<times> message option" where
  "calculate_yearly_start_year current_year event_date =
     (let input_year = year event_date in
      if input_year \<ge> current_year - 1 then (input_year, None)
      else (current_year - 1, Some (SeriesRebased (current_year - 1))))"

section \<open>The data model\<close>

text \<open>
  Modelled from the spec: \<^verbatim>\<open>calendarapp/models.py\<close>, which declares \<^verbatim>\<open>Event\<close> and
  \<^verbatim>\<open>ReminderSettings\<close>, is not among the sources. The records below carry the fields the
  views read and write (the spec's Entry and ReminderConfig). A primary key is \<open>None\<close>
  until the row is inserted; \<open>original_event\<close> holds the primary key of the head. The
  foreign key \<^verbatim>\<open>pet\<close> is an opaque reference, compared for equality only.
\<close>

type_synonym pet_ref = string

type_synonym time_of_day = "nat \<times> nat"

record event =
  pk :: "nat option"
  pet :: pet_ref
  title :: string
  event_type :: string
  date :: date
  time :: "time_of_day option"
  duration_minutes :: "int option"
  note_txt :: string
  is_yearly :: bool
  is_done :: bool
  done_year :: "int option"
  original_event :: "nat option"

record reminder_settings =
  event_id :: "nat option"
  pet_id :: pet_ref
  remind_at :: "time_of_day option"
  repeat :: bool
  repeat_days :: "string list"
  repeat_every :: int
  remind_date :: "date option"

text \<open>The request-shuttling dataclasses \<^verbatim>\<open>EventFormData\<close> and \<^verbatim>\<open>ReminderFormData\<close>.\<close>

record event_form_data =
  fd_title :: string
  fd_event_type :: string
  fd_date :: "date option"
  fd_time :: "time_of_day option"
  fd_duration :: "int option"
  fd_note :: string
  fd_is_yearly :: bool

record reminder_form_data =
  rf_remind_at :: "time_of_day option"
  rf_remind_date :: "date option"
  rf_repeat :: bool
  rf_repeat_days :: "string list"
  rf_repeat_every :: int

text \<open>
  The database: the two tables in insertion order and the next value of the
  auto-increment key of \<^verbatim>\<open>Event\<close>.
\<close>

record db =
  events :: "event list"
  next_pk :: nat
  reminders :: "reminder_settings list"

text \<open>
  A raised exception is \<open>Inl\<close> of the exception and the database as it stands at the raise
  (a caller's \<^verbatim>\<open>transaction.atomic()\<close> then restores the state it started from); a normal
  return is \<open>Inr\<close> of the value and the database.
\<close>

type_synonym 'a outcome = "(error \<times> db) + ('a \<times> db)"

subsection \<open>Repository primitives\<close>

text \<open>\<^verbatim>\<open>event.save()\<close> and \<^verbatim>\<open>Event.objects.create(...)\<close> on a new instance: the row receives the next key.\<close>

definition save_event :: "db \<Rightarrow> event \<Rightarrow> event \<times> db" where
  "save_event d e =
     (let e' = e\<lparr>pk := Some (next_pk d)\<rparr>
      in (e', d\<lparr>events := events d @ [e'], next_pk := Suc (next_pk d)\<rparr>))"

text \<open>\<^verbatim>\<open>Event.objects.bulk_create(objs)\<close>: one insertion per object, in order; the instances get their keys.\<close>

fun bulk_create :: "db \<Rightarrow> event list \<Rightarrow> event list \<times> db" where
  "bulk_create d [] = ([], d)"
| "bulk_create d (e # es) =
     (let (e', d') = save_event d e; (es', d'') = bulk_create d' es
      in (e' # es', d''))"

text \<open>
  \<^verbatim>\<open>Event.objects.bulk_update(objs, ['title', 'event_type', 'date', 'time',
  'duration_minutes', 'note', 'is_yearly'])\<close>: the row with an object's key takes the seven
  listed fields from the object; no other column is written.
\<close>

definition write_fields :: "event \<Rightarrow> event \<Rightarrow> event" where
  "write_fields u r =
     r\<lparr>title := title u, event_type := event_type u, date := date u, time := time u,
       duration_minutes := duration_minutes u, note_txt := note_txt u,
       is_yearly := is_yearly u\<rparr>"

definition bulk_update :: "db \<Rightarrow> event list \<Rightarrow> db" where
  "bulk_update d objs =
     d\<lparr>events :=
         map (\<lambda>r. case find (\<lambda>u. pk u = pk r) objs of
                     None \<Rightarrow> r
                   | Some u \<Rightarrow> write_fields u r) (events d)\<rparr>"

text \<open>
  Modelled from the spec: the \<^verbatim>\<open>on_delete\<close> rule of \<^verbatim>\<open>Event.original_event\<close> is declared in the
  absent \<^verbatim>\<open>models.py\<close>, so it is a parameter of deletion: \<open>CASCADE\<close> removes, transitively,
  every row that references a removed row; \<open>SET_NULL\<close> keeps such rows and clears their
  reference. A reminder is one-to-one with its entry and goes with it.
\<close>

datatype on_delete = CASCADE | SET_NULL

fun doomed :: "event list \<Rightarrow> (event \<Rightarrow> bool) \<Rightarrow> nat \<Rightarrow> event \<Rightarrow> bool" where
  "doomed rows P 0 r = P r"
| "doomed rows P (Suc n) r =
     (doomed rows P n r \<or>
      (original_event r \<noteq> None \<and>
       list_ex (\<lambda>h. pk h = original_event r \<and> doomed rows P n h) rows))"

definition delete_events :: "on_delete \<Rightarrow> (event \<Rightarrow> bool) \<Rightarrow> db \<Rightarrow> db" where
  "delete_events pol P d =
     (let rows = events d;
          gone = (case pol of CASCADE \<Rightarrow> doomed rows P (length rows) | SET_NULL \<Rightarrow> P);
          gone_pks = map pk (filter gone rows);
          kept = filter (\<lambda>r. \<not> gone r) rows;
          kept' = (case pol of
                     CASCADE \<Rightarrow> kept
                   | SET_NULL \<Rightarrow>
                       map (\<lambda>r. if original_event r \<noteq> None \<and> original_event r \<in> set gone_pks
                                 then r\<lparr>original_event := None\<rparr> else r) kept)
      in d\<lparr>events := kept',
            reminders := filter (\<lambda>x. event_id x \<notin> set gone_pks) (reminders d)\<rparr>)"

section \<open>EventService\<close>

subsection \<open>check_duplicate\<close>

text \<open>
  \<^verbatim>\<open>qs = Event.objects.filter(pet=pet, title=title, date=event_date)
  if exclude_id: qs = qs.exclude(id=exclude_id)
  return qs.exists()\<close>
  \<^verbatim>\<open>exclude_id\<close> is falsy when it is \<^verbatim>\<open>None\<close> or \<^verbatim>\<open>0\<close>.
\<close>

definition check_duplicate :: "db \<Rightarrow> pet_ref \<Rightarrow> string \<Rightarrow> date \<Rightarrow> nat option \<Rightarrow> bool" where
  "check_duplicate d p t event_date exclude_id =
     (let qs = filter (\<lambda>r. pet r = p \<and> title r = t \<and> date r = event_date) (events d);
          qs' = (if exclude_id \<noteq> None \<and> exclude_id \<noteq> Some 0
                 then filter (\<lambda>r. pk r \<noteq> exclude_id) qs else qs)
      in qs' \<noteq> [])"

subsection \<open>create_yearly_series\<close>

text \<open>
  The loop state is the database, \<^verbatim>\<open>original_event\<close> and \<^verbatim>\<open>created_events\<close>. The head is
  saved inside the loop; the continuations are only collected and are inserted by one
  \<^verbatim>\<open>bulk_create\<close> after it, so the duplicate check inside the loop sees the head but not
  the continuations collected so far. \<^verbatim>\<open>form_data.date.month\<close> on a missing date raises
  \<^verbatim>\<open>AttributeError\<close>. \<open>get_safe_date\<close> returns a date or raises, so the source's
  \<^verbatim>\<open>series_date is None\<close> branch is never taken and has no counterpart here.
\<close>

definition new_series_event ::
  "pet_ref \<Rightarrow> event_form_data \<Rightarrow> date \<Rightarrow> event option \<Rightarrow> event" where
  "new_series_event p form_data series_date original =
     \<lparr>pk = None, pet = p, title = fd_title form_data, event_type = fd_event_type form_data,
      date = series_date, time = fd_time form_data, duration_minutes = fd_duration form_data,
      note_txt = fd_note form_data, is_yearly = True, is_done = False, done_year = None,
      original_event = (case original of None \<Rightarrow> None | Some h \<Rightarrow> pk h)\<rparr>"

fun series_loop ::
  "pet_ref \<Rightarrow> event_form_data \<Rightarrow> int list \<Rightarrow> db \<Rightarrow> event option \<Rightarrow> event list
     \<Rightarrow> (event option \<times> event list) outcome" where
  "series_loop p form_data [] d original created = Inr ((original, created), d)"
| "series_loop p form_data (y # ys) d original created =
     (case fd_date form_data of
        None \<Rightarrow> Inl (AttributeError, d)
      | Some dt \<Rightarrow>
          (case get_safe_date y (month dt) (day dt) of
             Inl e \<Rightarrow> Inl (e, d)
           | Inr series_date \<Rightarrow>
               if check_duplicate d p (fd_title form_data) series_date None
               then series_loop p form_data ys d original created
               else
                 (let ev = new_series_event p form_data series_date original in
                  case original of
                    None \<Rightarrow>
                      (let (ev', d') = save_event d ev
                       in series_loop p form_data ys d' (Some ev') created)
                  | Some h \<Rightarrow> series_loop p form_data ys d original (created @ [ev]))))"

definition create_yearly_series ::
  "db \<Rightarrow> pet_ref \<Rightarrow> event_form_data \<Rightarrow> int list \<Rightarrow> (event option \<times> event list) outcome" where
  "create_yearly_series d p form_data years =
     (case series_loop p form_data years d None [] of
        Inl x \<Rightarrow> Inl x
      | Inr ((original, created), d') \<Rightarrow>
          if created \<noteq> []
          then (let (created', d'') = bulk_create d' created in Inr ((original, created'), d''))
          else Inr ((original, created), d'))"

subsection \<open>get_series_events\<close>

text \<open>
  \<^verbatim>\<open>event.original_event\<close> follows the foreign key (a missing row raises
  \<^verbatim>\<open>DoesNotExist\<close>); \<^verbatim>\<open>main_event.recurring_events.all()\<close> are the rows that reference the head.
\<close>

definition recurring_events :: "db \<Rightarrow> event \<Rightarrow> event list" where
  "recurring_events d main_event =
     filter (\<lambda>r. original_event r \<noteq> None \<and> original_event r = pk main_event) (events d)"

definition get_series_events :: "db \<Rightarrow> event \<Rightarrow> error + event list" where
  "get_series_events d ev =
     (case original_event ev of
        None \<Rightarrow> Inr (ev # recurring_events d ev)
      | Some h \<Rightarrow>
          (case find (\<lambda>r. pk r = Some h) (events d) of
             None \<Rightarrow> Inl DoesNotExist
           | Some main_event \<Rightarrow> Inr (main_event # recurring_events d main_event)))"

subsection \<open>update_events\<close>

text \<open>
  The loop keeps \<^verbatim>\<open>used_pairs\<close> and \<^verbatim>\<open>updated\<close>; the database is read by the duplicate check
  and written only by the \<^verbatim>\<open>bulk_update\<close> after the loop. With \<^verbatim>\<open>update_date\<close> the new date is
  built by \<^verbatim>\<open>date(ev.date.year, form_data.date.month, form_data.date.day)\<close> directly.
\<close>

definition apply_form :: "event_form_data \<Rightarrow> date \<Rightarrow> event \<Rightarrow> event" where
  "apply_form form_data new_date ev =
     ev\<lparr>title := fd_title form_data, event_type := fd_event_type form_data,
        date := new_date, time := fd_time form_data,
        duration_minutes := fd_duration form_data, note_txt := fd_note form_data,
        is_yearly := fd_is_yearly form_data\<rparr>"

definition edit_date :: "event_form_data \<Rightarrow> bool \<Rightarrow> event \<Rightarrow> error + date" where
  "edit_date form_data update_date ev =
     (if update_date
      then (case fd_date form_data of
              None \<Rightarrow> Inl AttributeError
            | Some dt \<Rightarrow> mk_date (year (date ev)) (month dt) (day dt))
      else Inr (date ev))"

fun update_loop ::
  "db \<Rightarrow> event_form_data \<Rightarrow> bool \<Rightarrow> event list \<Rightarrow> (string \<times> date) set \<Rightarrow> event list
     \<Rightarrow> error + event list" where
  "update_loop d form_data update_date [] used_pairs updated = Inr updated"
| "update_loop d form_data update_date (ev # evs) used_pairs updated =
     (case edit_date form_data update_date ev of
        Inl e \<Rightarrow> Inl e
      | Inr new_date \<Rightarrow>
          (let pair = (fd_title form_data, new_date) in
           if pair \<in> used_pairs
           then update_loop d form_data update_date evs used_pairs updated
           else if check_duplicate d (pet ev) (fd_title form_data) new_date (pk ev)
           then update_loop d form_data update_date evs used_pairs updated
           else update_loop d form_data update_date evs (insert pair used_pairs)
                  (updated @ [apply_form form_data new_date ev])))"

definition update_events ::
  "db \<Rightarrow> event list \<Rightarrow> event_form_data \<Rightarrow> bool \<Rightarrow> (event list) outcome" where
  "update_events d evs form_data update_date =
     (case update_loop d form_data update_date evs {} [] of
        Inl e \<Rightarrow> Inl (e, d)
      | Inr updated \<Rightarrow>
          Inr (updated, if updated \<noteq> [] then bulk_update d updated else d))"

section \<open>ReminderFormData.from_post\<close>

text \<open>
  The posted form is a multi-valued dictionary: \<^verbatim>\<open>get\<close> returns the last value of a key,
  \<^verbatim>\<open>getlist\<close> all of them. The library parsers \<^verbatim>\<open>datetime.strptime\<close> and \<^verbatim>\<open>int\<close> are
  parameters (\<open>None\<close> for a \<^verbatim>\<open>ValueError\<close>); the guards around them are the source's.
\<close>

type_synonym post_data = "string \<Rightarrow> string list"

definition post_get :: "post_data \<Rightarrow> string \<Rightarrow> string option" where
  "post_get post_data k = (if post_data k = [] then None else Some (last (post_data k)))"

definition parse_time ::
  "(string \<Rightarrow> time_of_day option) \<Rightarrow> string option \<Rightarrow> time_of_day option" where
  "parse_time strptime_hm v =
     (case v of
        None \<Rightarrow> None
      | Some s \<Rightarrow> if s = [] \<or> length s < 5 then None else strptime_hm s)"

definition parse_date :: "(string \<Rightarrow> date option) \<Rightarrow> string option \<Rightarrow> date option" where
  "parse_date strptime_ymd v =
     (case v of
        None \<Rightarrow> None
      | Some s \<Rightarrow> if s = [] \<or> length s < 10 then None else strptime_ymd s)"

definition parse_int :: "(string \<Rightarrow> int option) \<Rightarrow> string option \<Rightarrow> int option" where
  "parse_int int_of v =
     (case v of
        None \<Rightarrow> None
      | Some s \<Rightarrow> if s = [] then None else int_of s)"

definition from_post ::
  "(string \<Rightarrow> time_of_day option) \<Rightarrow> (string \<Rightarrow> date option) \<Rightarrow> (string \<Rightarrow> int option)
     \<Rightarrow> post_data \<Rightarrow> reminder_form_data" where
  "from_post strptime_hm strptime_ymd int_of post_data =
     (let rep = (post_get post_data ''repeat'' = Some ''on'');
          parsed = parse_int int_of (post_get post_data ''repeat_every'');
          every0 = (case parsed of None \<Rightarrow> 1 | Some n \<Rightarrow> if n = 0 then 1 else n);
          every = (if every0 \<le> 0 then 1 else every0)
      in \<lparr>rf_remind_at = parse_time strptime_hm (post_get post_data ''remind_at''),
          rf_remind_date =
            (if \<not> rep then parse_date strptime_ymd (post_get post_data ''remind_date'')
             else None),
          rf_repeat = rep,
          rf_repeat_days = (if rep then post_data ''repeat_days'' else []),
          rf_repeat_every = every\<rparr>)"

section \<open>ReminderService\<close>

text \<open>
  \<^verbatim>\<open>ReminderSettings.objects.get_or_create(event=event, defaults={'pet': event.pet})\<close>: the
  row bound to the event, or a new one. Modelled from the spec: the column defaults of a
  new row are declared in the absent \<^verbatim>\<open>models.py\<close> (the spec gives \<^verbatim>\<open>repeatEvery\<close> the default 1);
  \<open>save_reminder\<close> overwrites every one of them before it saves.
\<close>

definition get_or_create :: "db \<Rightarrow> event \<Rightarrow> reminder_settings \<times> db" where
  "get_or_create d ev =
     (case find (\<lambda>x. event_id x = pk ev) (reminders d) of
        Some r \<Rightarrow> (r, d)
      | None \<Rightarrow>
          (let r = \<lparr>event_id = pk ev, pet_id = pet ev, remind_at = None, repeat = False,
                    repeat_days = [], repeat_every = 1, remind_date = None\<rparr>
           in (r, d\<lparr>reminders := reminders d @ [r]\<rparr>)))"

text \<open>\<^verbatim>\<open>reminder.save()\<close>: the row of that event is replaced by the instance.\<close>

definition save_reminder_row :: "db \<Rightarrow> reminder_settings \<Rightarrow> db" where
  "save_reminder_row d r =
     d\<lparr>reminders := map (\<lambda>x. if event_id x = event_id r then r else x) (reminders d)\<rparr>"

definition reminder_date ::
  "event \<Rightarrow> reminder_form_data \<Rightarrow> bool \<Rightarrow> error + date option" where
  "reminder_date ev reminder_data adjust_date_to_event_year =
     (case rf_remind_date reminder_data of
        Some rd \<Rightarrow>
          if \<not> rf_repeat reminder_data
          then (if adjust_date_to_event_year
                then (case mk_date (year (date ev)) (month rd) (day rd) of
                        Inl e \<Rightarrow> Inl e
                      | Inr dt \<Rightarrow> Inr (Some dt))
                else Inr (Some rd))
          else Inr None
      | None \<Rightarrow> Inr None)"

definition save_reminder ::
  "db \<Rightarrow> event \<Rightarrow> reminder_form_data \<Rightarrow> bool \<Rightarrow> (reminder_settings option) outcome" where
  "save_reminder d ev reminder_data adjust_date_to_event_year =
     (if rf_remind_at reminder_data = None then Inr (None, d)
      else
        (let (reminder, d1) = get_or_create d ev;
             reminder1 = reminder\<lparr>remind_at := rf_remind_at reminder_data,
                                  repeat := rf_repeat reminder_data,
                                  repeat_days := rf_repeat_days reminder_data,
                                  repeat_every := rf_repeat_every reminder_data\<rparr>
         in case reminder_date ev reminder_data adjust_date_to_event_year of
              Inl e \<Rightarrow> Inl (e, d1)
            | Inr rd \<Rightarrow>
                (let reminder2 = reminder1\<lparr>remind_date := rd\<rparr>
                 in Inr (Some reminder2, save_reminder_row d1 reminder2))))"

fun save_reminders_for_events ::
  "db \<Rightarrow> event list \<Rightarrow> reminder_form_data \<Rightarrow> (reminder_settings list) outcome" where
  "save_reminders_for_events d [] reminder_data = Inr ([], d)"
| "save_reminders_for_events d (ev # evs) reminder_data =
     (case save_reminder d ev reminder_data True of
        Inl x \<Rightarrow> Inl x
      | Inr (reminder, d1) \<Rightarrow>
          (case save_reminders_for_events d1 evs reminder_data of
             Inl x \<Rightarrow> Inl x
           | Inr (rs, d2) \<Rightarrow>
               Inr ((case reminder of None \<Rightarrow> rs | Some r \<Rightarrow> r # rs), d2)))"

section \<open>The view helpers\<close>

subsection \<open>_create_yearly_event_v2\<close>

text \<open>The result is the list of created events, or the text of an error (the source's \<^verbatim>\<open>str\<close>).\<close>

definition create_yearly_event_v2 ::
  "int \<Rightarrow> db \<Rightarrow> pet_ref \<Rightarrow> event_form_data \<Rightarrow> reminder_form_data
     \<Rightarrow> (message + event list) outcome" where
  "create_yearly_event_v2 current_year d p event_data reminder_data =
     (case fd_date event_data of
        None \<Rightarrow> Inl (AttributeError, d)
      | Some dt \<Rightarrow>
          (let start_year = fst (calculate_yearly_start_year current_year dt) in
           case get_safe_date start_year (month dt) (day dt) of
             Inl e \<Rightarrow> Inl (e, d)
           | Inr start_date \<Rightarrow>
               if check_duplicate d p (fd_title event_data) start_date None
               then Inr (Inl (DuplicateExists start_date), d)
               else
                 (case create_yearly_series d p event_data
                         [start_year, start_year + 1, start_year + 2] of
                    Inl x \<Rightarrow> Inl x
                  | Inr ((None, created_events), d1) \<Rightarrow> Inr (Inl SeriesNotCreated, d1)
                  | Inr ((Some original, created_events), d1) \<Rightarrow>
                      (let all_events = original # created_events in
                       case save_reminders_for_events d1 all_events reminder_data of
                         Inl x \<Rightarrow> Inl x
                       | Inr (rs, d2) \<Rightarrow> Inr (Inr all_events, d2)))))"

subsection \<open>_handle_regular_event_edit\<close>

text \<open>
  The handler takes the parsed form. The writes run inside \<^verbatim>\<open>transaction.atomic()\<close>, so an
  exception leaves the database as it was at entry. \<open>update_events\<close> is called with its
  default \<^verbatim>\<open>update_date=True\<close>.
\<close>

datatype edit_response = EditError message | EditRedirect

definition handle_regular_event_edit ::
  "db \<Rightarrow> event \<Rightarrow> event_form_data \<Rightarrow> reminder_form_data \<Rightarrow> bool \<Rightarrow> edit_response outcome" where
  "handle_regular_event_edit d ev event_data reminder_data apply_to_all =
     (case fd_date event_data of
        None \<Rightarrow> Inr (EditError InvalidDateFormat, d)
      | Some dt \<Rightarrow>
          if fd_is_yearly event_data \<and> month dt = 2 \<and> day dt = 29
          then Inr (EditError Feb29NotForYearly, d)
          else
            (case (if apply_to_all \<and> is_yearly ev then get_series_events d ev else Inr [ev]) of
               Inl e \<Rightarrow> Inl (e, d)
             | Inr evs \<Rightarrow>
                 (case update_events d evs event_data True of
                    Inl (e, d1) \<Rightarrow> Inl (e, d)
                  | Inr (updated_events, d1) \<Rightarrow>
                      (case save_reminders_for_events d1 updated_events reminder_data of
                         Inl (e, d2) \<Rightarrow> Inl (e, d)
                       | Inr (rs, d2) \<Rightarrow> Inr (EditRedirect, d2)))))"

subsection \<open>delete_event\<close>

text \<open>
  The request is the looked-up key, whether the user is among the pet's owners, the HTTP
  method and the posted \<^verbatim>\<open>delete_all\<close> value. The deletion itself raises nothing in this
  model, so the source's \<^verbatim>\<open>except Exception\<close> branch has no counterpart.
\<close>

record delete_request =
  rq_event_id :: nat
  rq_is_owner :: bool
  rq_method :: string
  rq_delete_all :: "string option"

datatype delete_response =
    Http404
  | RedirectPetsList
  | RedirectNotPost
  | RedirectProtected message
  | RedirectDeleted

definition delete_event :: "on_delete \<Rightarrow> db \<Rightarrow> delete_request \<Rightarrow> delete_response \<times> db" where
  "delete_event pol d rq =
     (case find (\<lambda>r. pk r = Some (rq_event_id rq)) (events d) of
        None \<Rightarrow> (Http404, d)
      | Some ev \<Rightarrow>
          if \<not> rq_is_owner rq then (RedirectPetsList, d)
          else if rq_method rq \<noteq> ''POST'' then (RedirectNotPost, d)
          else
            (let is_series_original =
                   (is_yearly ev \<and> recurring_events d ev \<noteq> [] \<and> original_event ev = None);
                 delete_all = (rq_delete_all rq = Some ''on'')
             in if is_series_original \<and> \<not> delete_all
                then (RedirectProtected (SeriesHeadProtected (title ev)), d)
                else if delete_all \<and> is_yearly ev
                then (RedirectDeleted,
                      delete_events pol
                        (\<lambda>r. pet r = pet ev \<and> title r = title ev \<and> is_yearly r) d)
                else (RedirectDeleted, delete_events pol (\<lambda>r. pk r = pk ev) d)))"

section \<open>create_next_year_events\<close>

text \<open>
  \<^verbatim>\<open>last_year_events\<close> is evaluated once, when the loop starts. The new row references the
  source's head, or the source itself when it has none (\<^verbatim>\<open>event.original_event or event\<close>).
\<close>

definition next_year_event :: "event \<Rightarrow> date \<Rightarrow> event" where
  "next_year_event ev new_date =
     \<lparr>pk = None, pet = pet ev, title = title ev, event_type = event_type ev,
      date = new_date, time = time ev, duration_minutes = duration_minutes ev,
      note_txt = note_txt ev, is_yearly = True, is_done = False, done_year = None,
      original_event = (case original_event ev of Some h \<Rightarrow> Some h | None \<Rightarrow> pk ev)\<rparr>"

fun rollover_loop :: "int \<Rightarrow> event list \<Rightarrow> db \<Rightarrow> nat \<Rightarrow> nat outcome" where
  "rollover_loop target_year [] d created_count = Inr (created_count, d)"
| "rollover_loop target_year (ev # evs) d created_count =
     (case get_safe_date target_year (month (date ev)) (day (date ev)) of
        Inl e \<Rightarrow> Inl (e, d)
      | Inr new_date \<Rightarrow>
          if \<not> check_duplicate d (pet ev) (title ev) new_date None
          then rollover_loop target_year evs
                 (snd (save_event d (next_year_event ev new_date))) (created_count + 1)
          else rollover_loop target_year evs d created_count)"

definition create_next_year_events :: "int \<Rightarrow> db \<Rightarrow> nat outcome" where
  "create_next_year_events current_year d =
     (let next_year = current_year + 1;
          target_year = next_year + 1;
          last_year_events =
            filter (\<lambda>r. is_yearly r \<and> year (date r) = current_year - 1) (events d)
      in rollover_loop target_year last_year_events d 0)"

section \<open>The reminder invariant and sample data\<close>

text \<open>
  The spec's invariant of a reminder configuration: an absolute \<open>remind_date\<close> is present
  only when \<open>repeat\<close> is off.
\<close>

definition reminder_ok :: "reminder_settings \<Rightarrow> bool" where
  "reminder_ok r \<longleftrightarrow> remind_date r = None \<or> \<not> repeat r"

text \<open>Concrete rows and forms on which the theorems below are exercised.\<close>

definition ymd :: "int \<Rightarrow> int \<Rightarrow> int \<Rightarrow> date" where
  "ymd y m d = \<lparr>year = y, month = m, day = d\<rparr>"

definition sample_event :: "nat \<Rightarrow> string \<Rightarrow> date \<Rightarrow> bool \<Rightarrow> nat option \<Rightarrow> event" where
  "sample_event k t dt yearly head =
     \<lparr>pk = Some k, pet = ''rex'', title = t, event_type = ''vet'', date = dt, time = None,
      duration_minutes = None, note_txt = [], is_yearly = yearly, is_done = False,
      done_year = None, original_event = head\<rparr>"

definition sample_form :: "string \<Rightarrow> date \<Rightarrow> bool \<Rightarrow> event_form_data" where
  "sample_form t dt yearly =
     \<lparr>fd_title = t, fd_event_type = ''vet'', fd_date = Some dt, fd_time = None,
      fd_duration = None, fd_note = [], fd_is_yearly = yearly\<rparr>"

definition sample_reminder_form :: "date option \<Rightarrow> bool \<Rightarrow> reminder_form_data" where
  "sample_reminder_form rd rep =
     \<lparr>rf_remind_at = Some (9, 0), rf_remind_date = rd, rf_repeat = rep,
      rf_repeat_days = [], rf_repeat_every = 1\<rparr>"

definition no_reminder_form :: reminder_form_data where
  "no_reminder_form =
     \<lparr>rf_remind_at = None, rf_remind_date = None, rf_repeat = False,
      rf_repeat_days = [], rf_repeat_every = 1\<rparr>"

definition sample_db :: "event list \<Rightarrow> db" where
  "sample_db rows = \<lparr>events = rows, next_pk = Suc (length rows), reminders = []\<rparr>"

text \<open>
  The columns an edit never writes: two versions of a row agree on the key, the owner,
  the head reference and the completion status.
\<close>

definition same_frame :: "event \<Rightarrow> event \<Rightarrow> bool" where
  "same_frame r r' \<longleftrightarrow>
     pk r' = pk r \<and> pet r' = pet r \<and> original_event r' = original_event r \<and>
     is_done r' = is_done r \<and> done_year r' = done_year r"

text \<open>A three-entry yearly series: the head with key 1 and two continuations.\<close>

definition series_rows :: "string \<Rightarrow> event list" where
  "series_rows t =
     [sample_event 1 t (ymd 2026 3 15) True None,
      sample_event 2 t (ymd 2027 3 15) True (Some 1),
      sample_event 3 t (ymd 2028 3 15) True (Some 1)]"

text \<open>A series whose oldest entry lies in the year before 2026, and the same series after a rollover.\<close>

definition window_rows :: "event list" where
  "window_rows =
     [sample_event 1 ''Vet'' (ymd 2025 3 15) True None,
      sample_event 2 ''Vet'' (ymd 2026 3 15) True (Some 1),
      sample_event 3 ''Vet'' (ymd 2027 3 15) True (Some 1)]"

text \<open>A delete request of an owner, sent by POST.\<close>

definition sample_request :: "nat \<Rightarrow> string option \<Rightarrow> delete_request" where
  "sample_request k delete_all =
     \<lparr>rq_event_id = k, rq_is_owner = True, rq_method = ''POST'', rq_delete_all = delete_all\<rparr>"

text \<open>
  The spec's leap-day correction as a date: the month and day of a template in a target
  year, with 28 February in place of a 29 February that the target year does not have.
\<close>

definition leap_corrected :: "date \<Rightarrow> int \<Rightarrow> date" where
  "leap_corrected dt y =
     \<lparr>year = y, month = month dt,
      day = (if month dt = 2 \<and> day dt = 29 \<and> \<not> is_leap y then 28 else day dt)\<rparr>"

section \<open>Facts about dates\<close>

lemma mk_date_valid:
  "valid_ymd y m d \<Longrightarrow> mk_date y m d = Inr \<lparr>year = y, month = m, day = d\<rparr>"
  by (simp add: mk_date_def valid_ymd_def year_ok_def)

lemma mk_date_invalid:
  "\<not> valid_ymd y m d \<Longrightarrow> mk_date y m d = Inl ValueError"
  by (auto simp: mk_date_def valid_ymd_def year_ok_def)

lemma mk_date_Inr_iff:
  "mk_date y m d = Inr dt \<longleftrightarrow> valid_ymd y m d \<and> dt = \<lparr>year = y, month = m, day = d\<rparr>"
  by (cases "valid_ymd y m d") (auto simp: mk_date_valid mk_date_invalid)

lemma valid_feb28: "year_ok y \<Longrightarrow> valid_ymd y 2 28"
  by (simp add: valid_ymd_def days_in_month_def)

lemma valid_feb29_iff: "valid_ymd y 2 29 \<longleftrightarrow> year_ok y \<and> is_leap y"
  by (simp add: valid_ymd_def days_in_month_def)

text \<open>
  A month/day pair taken from a valid date is valid in every representable year, except
  29 February, which needs a leap year.
\<close>

lemma valid_ymd_other_year:
  assumes "valid_ymd y0 m d" and "year_ok y" and "\<not> (m = 2 \<and> d = 29)"
  shows "valid_ymd y m d"
  using assms by (auto simp: valid_ymd_def days_in_month_def split: if_splits)

lemma get_safe_date_valid:
  "valid_ymd y m d \<Longrightarrow> get_safe_date y m d = Inr \<lparr>year = y, month = m, day = d\<rparr>"
  by (simp add: get_safe_date_def mk_date_valid)

lemma get_safe_date_feb29_nonleap:
  "year_ok y \<Longrightarrow> \<not> is_leap y \<Longrightarrow> get_safe_date y 2 29 = Inr \<lparr>year = y, month = 2, day = 28\<rparr>"
  by (simp add: get_safe_date_def mk_date_invalid valid_feb29_iff mk_date_valid valid_feb28)

lemma get_safe_date_other_invalid:
  assumes "\<not> valid_ymd y m d" and "\<not> (year_ok y \<and> \<not> is_leap y \<and> m = 2 \<and> d = 29)"
  shows "get_safe_date y m d = Inl ValueError"
proof (cases "m = 2 \<and> d = 29")
  case True
  with assms have "\<not> year_ok y"
    by (auto simp: valid_feb29_iff)
  then have "mk_date y 2 28 = Inl ValueError"
    by (simp add: mk_date_invalid valid_ymd_def)
  with True assms(1) show ?thesis
    by (simp add: get_safe_date_def mk_date_invalid)
next
  case False
  with assms(1) show ?thesis
    by (auto simp: get_safe_date_def mk_date_invalid)
qed

text \<open>
  With a month/day pair of some valid date and a representable target year,
  \<open>get_safe_date\<close> always returns a date: the pair itself, or 28 February for a
  29 February that the target year does not have.
\<close>

lemma get_safe_date_template:
  assumes "valid_ymd y0 m d" and "year_ok y"
  shows "get_safe_date y m d =
           Inr \<lparr>year = y, month = m, day = (if m = 2 \<and> d = 29 \<and> \<not> is_leap y then 28 else d)\<rparr>"
proof (cases "m = 2 \<and> d = 29")
  case True
  with assms(2) show ?thesis
    by (cases "is_leap y")
       (simp_all add: get_safe_date_feb29_nonleap get_safe_date_valid valid_feb29_iff)
next
  case False
  with assms have "valid_ymd y m d"
    by (rule_tac valid_ymd_other_year)
  with False show ?thesis
    by (auto simp: get_safe_date_valid)
qed

section \<open>Claims\<close>

text \<open>
  C1. For every year, month and day, \<open>get_safe_date\<close> returns the calendar date when the
  three components form a valid date; when the only invalidity is 29 February in a
  non-leap year (the year itself being one a date can hold) it returns 28 February of
  that year; every other invalid combination raises \<open>ValueError\<close>. In particular, for a
  representable year, 29 February comes back as 28 February when the year is not a leap
  year and unchanged when it is.
\<close>

theorem get_safe_date_spec:
  "(valid_ymd y m d \<longrightarrow> get_safe_date y m d = Inr \<lparr>year = y, month = m, day = d\<rparr>) \<and>
   (year_ok y \<and> \<not> is_leap y \<and> m = 2 \<and> d = 29 \<longrightarrow>
      get_safe_date y m d = Inr \<lparr>year = y, month = 2, day = 28\<rparr>) \<and>
   (\<not> valid_ymd y m d \<and> \<not> (year_ok y \<and> \<not> is_leap y \<and> m = 2 \<and> d = 29) \<longrightarrow>
      get_safe_date y m d = Inl ValueError) \<and>
   (year_ok y \<longrightarrow>
      get_safe_date y 2 29 =
        Inr \<lparr>year = y, month = 2, day = (if is_leap y then 29 else 28)\<rparr>)"
proof (intro conjI impI)
  assume "valid_ymd y m d"
  then show "get_safe_date y m d = Inr \<lparr>year = y, month = m, day = d\<rparr>"
    by (rule get_safe_date_valid)
next
  assume "year_ok y \<and> \<not> is_leap y \<and> m = 2 \<and> d = 29"
  then show "get_safe_date y m d = Inr \<lparr>year = y, month = 2, day = 28\<rparr>"
    by (simp add: get_safe_date_feb29_nonleap)
next
  assume "\<not> valid_ymd y m d \<and> \<not> (year_ok y \<and> \<not> is_leap y \<and> m = 2 \<and> d = 29)"
  then show "get_safe_date y m d = Inl ValueError"
    by (simp add: get_safe_date_other_invalid)
next
  assume "year_ok y"
  then show "get_safe_date y 2 29 =
      Inr \<lparr>year = y, month = 2, day = (if is_leap y then 29 else 28)\<rparr>"
    by (simp add: get_safe_date_feb29_nonleap get_safe_date_valid valid_feb29_iff)
qed

theorem get_safe_date_spec_witness:
  "valid_ymd 2026 3 15 \<and> get_safe_date 2026 3 15 = Inr \<lparr>year = 2026, month = 3, day = 15\<rparr> \<and>
   year_ok 2025 \<and> \<not> is_leap 2025 \<and>
   get_safe_date 2025 2 29 = Inr \<lparr>year = 2025, month = 2, day = 28\<rparr> \<and>
   year_ok 2100 \<and> \<not> is_leap 2100 \<and>
   get_safe_date 2100 2 29 = Inr \<lparr>year = 2100, month = 2, day = 28\<rparr> \<and>
   year_ok 2024 \<and> is_leap 2024 \<and>
   get_safe_date 2024 2 29 = Inr \<lparr>year = 2024, month = 2, day = 29\<rparr> \<and>
   \<not> valid_ymd 2025 2 30 \<and> get_safe_date 2025 2 30 = Inl ValueError \<and>
   \<not> valid_ymd 2025 13 1 \<and> get_safe_date 2025 13 1 = Inl ValueError"
proof -
  have v: "valid_ymd 2026 3 15" "year_ok 2025" "\<not> is_leap 2025" "year_ok 2100"
    "\<not> is_leap 2100" "year_ok 2024" "is_leap 2024" "\<not> valid_ymd 2025 2 30"
    "\<not> valid_ymd 2025 13 1"
    by (simp_all add: valid_ymd_def year_ok_def MINYEAR_def MAXYEAR_def is_leap_def
        days_in_month_def)
  show ?thesis
    using v get_safe_date_spec [of 2026 3 15] get_safe_date_spec [of 2025 2 29]
      get_safe_date_spec [of 2100 2 29] get_safe_date_spec [of 2024 2 29]
      get_safe_date_spec [of 2025 2 30] get_safe_date_spec [of 2025 13 1]
    by simp
qed

text \<open>
  C9. \<open>calculate_yearly_start_year\<close> returns the requested year and no warning when the
  requested year is at least \<open>current_year - 1\<close>, and otherwise \<open>current_year - 1\<close> with a
  warning; either way the start year is never more than one year behind the current one.
\<close>

theorem calculate_yearly_start_year_spec:
  "(year event_date \<ge> current_year - 1 \<longrightarrow>
      calculate_yearly_start_year current_year event_date = (year event_date, None)) \<and>
   (\<not> year event_date \<ge> current_year - 1 \<longrightarrow>
      (\<exists>w. calculate_yearly_start_year current_year event_date = (current_year - 1, Some w))) \<and>
   fst (calculate_yearly_start_year current_year event_date) \<ge> current_year - 1"
  by (simp add: calculate_yearly_start_year_def Let_def)

theorem calculate_yearly_start_year_spec_witness:
  "calculate_yearly_start_year 2026 \<lparr>year = 2020, month = 5, day = 10\<rparr>
     = (2025, Some (SeriesRebased 2025)) \<and>
   calculate_yearly_start_year 2026 \<lparr>year = 2026, month = 5, day = 10\<rparr> = (2026, None) \<and>
   calculate_yearly_start_year 2026 \<lparr>year = 2030, month = 5, day = 10\<rparr> = (2030, None) \<and>
   calculate_yearly_start_year 2026 \<lparr>year = 2025, month = 5, day = 10\<rparr> = (2025, None)"
  using calculate_yearly_start_year_spec [of 2026 "\<lparr>year = 2020, month = 5, day = 10\<rparr>"]
    calculate_yearly_start_year_spec [of 2026 "\<lparr>year = 2026, month = 5, day = 10\<rparr>"]
    calculate_yearly_start_year_spec [of 2026 "\<lparr>year = 2030, month = 5, day = 10\<rparr>"]
    calculate_yearly_start_year_spec [of 2026 "\<lparr>year = 2025, month = 5, day = 10\<rparr>"]
  by (simp add: calculate_yearly_start_year_def)

section \<open>Reminder configuration\<close>
lemma find_replace_key:
  assumes "find (\<lambda>x. k x = a) xs \<noteq> None" and "k r = a"
  shows "find (\<lambda>x. k x = a) (map (\<lambda>x. if k x = k r then r else x) xs) = Some r"
  using assms by (induction xs) auto

lemma find_Some_holds: "find P xs = Some x \<Longrightarrow> P x \<and> x \<in> set xs"
  by (induction xs) (auto split: if_splits)

lemma find_not_None_iff: "find P xs \<noteq> None \<longleftrightarrow> (\<exists>x\<in>set xs. P x)"
  by (induction xs) auto

lemma get_or_create_cases:
  assumes "get_or_create d ev = (r, d1)"
  shows "event_id r = pk ev \<and> find (\<lambda>x. event_id x = pk ev) (reminders d1) \<noteq> None \<and>
         (reminders d1 = reminders d \<or> reminders d1 = reminders d @ [r] \<and> \<not> repeat r \<and> remind_date r = None)"
proof (cases "find (\<lambda>x. event_id x = pk ev) (reminders d)")
  case None
  with assms show ?thesis
    by (auto simp: get_or_create_def Let_def find_not_None_iff [simplified])
next
  case (Some r0)
  with assms have "r = r0" "d1 = d"
    by (auto simp: get_or_create_def)
  with Some find_Some_holds [OF Some] show ?thesis
    by simp
qed

lemma reminder_date_repeat:
  "rf_repeat rf \<Longrightarrow> reminder_date ev rf adj = Inr None"
  by (simp add: reminder_date_def split: option.splits)

lemma reminder_date_Some:
  "reminder_date ev rf adj = Inr (Some x) \<Longrightarrow> \<not> rf_repeat rf"
  by (auto simp: reminder_date_def split: option.splits if_splits sum.splits)

lemma save_reminder_Some:
  assumes "save_reminder d ev rf adj = Inr (Some r, d')"
  shows "repeat r = rf_repeat rf \<and> (remind_date r \<noteq> None \<longrightarrow> \<not> repeat r) \<and>
         (rf_repeat rf \<longrightarrow> remind_date r = None) \<and>
         find (\<lambda>x. event_id x = pk ev) (reminders d') = Some r"
proof -
  obtain r0 d1 where g: "get_or_create d ev = (r0, d1)"
    by (cases "get_or_create d ev")
  from assms g obtain rd where rd: "reminder_date ev rf adj = Inr rd"
    and r: "r = r0\<lparr>remind_at := rf_remind_at rf, repeat := rf_repeat rf,
                  repeat_days := rf_repeat_days rf, repeat_every := rf_repeat_every rf,
                  remind_date := rd\<rparr>"
    and d': "d' = save_reminder_row d1 r"
    by (auto simp: save_reminder_def Let_def split: if_splits sum.splits)
  from get_or_create_cases [OF g] have k: "event_id r = pk ev"
    and f: "find (\<lambda>x. event_id x = pk ev) (reminders d1) \<noteq> None"
    by (simp_all add: r)
  have "find (\<lambda>x. event_id x = pk ev) (reminders d') = Some r"
    unfolding d' save_reminder_row_def using find_replace_key [OF f k] by simp
  moreover have "remind_date r \<noteq> None \<longrightarrow> \<not> repeat r"
    using rd reminder_date_Some [of ev rf adj] by (auto simp: r)
  moreover have "rf_repeat rf \<longrightarrow> remind_date r = None"
    using rd reminder_date_repeat [of rf ev adj] by (auto simp: r)
  ultimately show ?thesis by (simp add: r)
qed

lemma save_reminder_repeat_total:
  assumes "rf_remind_at rf \<noteq> None" and "rf_repeat rf"
  shows "\<exists>r d'. save_reminder d ev rf adj = Inr (Some r, d') \<and> repeat r \<and> remind_date r = None"
  using assms
  by (auto simp: save_reminder_def Let_def reminder_date_repeat split: prod.splits)

lemma save_reminder_preserves:
  assumes "save_reminder d ev rf adj = Inr (res, d')" and "list_all reminder_ok (reminders d)"
  shows "list_all reminder_ok (reminders d')"
proof (cases res)
  case None
  with assms show ?thesis
    by (auto simp: save_reminder_def Let_def split: if_splits sum.splits prod.splits)
next
  case (Some r)
  obtain r0 d1 where g: "get_or_create d ev = (r0, d1)"
    by (cases "get_or_create d ev")
  from assms(1) g Some have d': "d' = save_reminder_row d1 r"
    by (auto simp: save_reminder_def Let_def split: if_splits sum.splits)
  from save_reminder_Some [OF assms(1) [unfolded Some]] have ok: "reminder_ok r"
    by (auto simp: reminder_ok_def)
  from get_or_create_cases [OF g] assms(2) have "list_all reminder_ok (reminders d1)"
    by (auto simp: reminder_ok_def)
  with ok show ?thesis
    by (auto simp: d' save_reminder_row_def list_all_iff)
qed

lemma from_post_exclusive:
  "rf_repeat (from_post a b c post) \<Longrightarrow> rf_remind_date (from_post a b c post) = None"
  by (simp add: from_post_def Let_def)

text \<open>
  C7. After \<open>save_reminder\<close> has stored a configuration, the stored row has a
  \<open>remind_date\<close> only when \<open>repeat\<close> is off, and every row of the table that satisfied
  this before still does; with \<open>repeat\<close> on and a reminder time given, the call always
  stores a row, and that row has no \<open>remind_date\<close>, whatever date was supplied. The form
  parser already drops the date of a repeating reminder.
\<close>

theorem save_reminder_mutual_exclusion:
  "(save_reminder d ev rf adj = Inr (Some r, d') \<longrightarrow>
      find (\<lambda>x. event_id x = pk ev) (reminders d') = Some r \<and>
      repeat r = rf_repeat rf \<and>
      (remind_date r \<noteq> None \<longrightarrow> \<not> repeat r) \<and>
      (rf_repeat rf \<longrightarrow> remind_date r = None)) \<and>
   (save_reminder d ev rf adj = Inr (res, d') \<and> list_all reminder_ok (reminders d) \<longrightarrow>
      list_all reminder_ok (reminders d')) \<and>
   (rf_remind_at rf \<noteq> None \<and> rf_repeat rf \<longrightarrow>
      (\<exists>r1 d1. save_reminder d ev rf adj = Inr (Some r1, d1) \<and>
               repeat r1 \<and> remind_date r1 = None)) \<and>
   (rf_repeat (from_post strptime_hm strptime_ymd int_of post_data) \<longrightarrow>
      rf_remind_date (from_post strptime_hm strptime_ymd int_of post_data) = None)"
proof (intro conjI impI)
  assume "save_reminder d ev rf adj = Inr (Some r, d')"
  from save_reminder_Some [OF this]
  show "find (\<lambda>x. event_id x = pk ev) (reminders d') = Some r"
    and "repeat r = rf_repeat rf"
    and "remind_date r \<noteq> None \<Longrightarrow> \<not> repeat r"
    and "rf_repeat rf \<Longrightarrow> remind_date r = None"
    by auto
next
  assume "save_reminder d ev rf adj = Inr (res, d') \<and> list_all reminder_ok (reminders d)"
  then show "list_all reminder_ok (reminders d')"
    using save_reminder_preserves by blast
next
  assume "rf_remind_at rf \<noteq> None \<and> rf_repeat rf"
  then show "\<exists>r1 d1. save_reminder d ev rf adj = Inr (Some r1, d1) \<and>
               repeat r1 \<and> remind_date r1 = None"
    using save_reminder_repeat_total by blast
next
  assume "rf_repeat (from_post strptime_hm strptime_ymd int_of post_data)"
  then show "rf_remind_date (from_post strptime_hm strptime_ymd int_of post_data) = None"
    by (rule from_post_exclusive)
qed

theorem save_reminder_mutual_exclusion_witness:
  "save_reminder (sample_db [sample_event 1 ''Vet'' (ymd 2026 3 15) True None])
       (sample_event 1 ''Vet'' (ymd 2026 3 15) True None)
       (sample_reminder_form (Some (ymd 2026 3 14)) True) True =
     Inr (Some \<lparr>event_id = Some 1, pet_id = ''rex'', remind_at = Some (9, 0), repeat = True,
                 repeat_days = [], repeat_every = 1, remind_date = None\<rparr>,
          \<lparr>events = [sample_event 1 ''Vet'' (ymd 2026 3 15) True None], next_pk = 2,
           reminders = [\<lparr>event_id = Some 1, pet_id = ''rex'', remind_at = Some (9, 0),
                          repeat = True, repeat_days = [], repeat_every = 1,
                          remind_date = None\<rparr>]\<rparr>) \<and>
   find (\<lambda>x. event_id x = pk (sample_event 1 ''Vet'' (ymd 2026 3 15) True None))
     [\<lparr>event_id = Some 1, pet_id = ''rex'', remind_at = Some (9, 0), repeat = True,
        repeat_days = [], repeat_every = 1, remind_date = None\<rparr>] =
     Some \<lparr>event_id = Some 1, pet_id = ''rex'', remind_at = Some (9, 0), repeat = True,
            repeat_days = [], repeat_every = 1, remind_date = None\<rparr>"
proof -
  have run: "save_reminder (sample_db [sample_event 1 ''Vet'' (ymd 2026 3 15) True None])
       (sample_event 1 ''Vet'' (ymd 2026 3 15) True None)
       (sample_reminder_form (Some (ymd 2026 3 14)) True) True =
     Inr (Some \<lparr>event_id = Some 1, pet_id = ''rex'', remind_at = Some (9, 0), repeat = True,
                 repeat_days = [], repeat_every = 1, remind_date = None\<rparr>,
          \<lparr>events = [sample_event 1 ''Vet'' (ymd 2026 3 15) True None], next_pk = 2,
           reminders = [\<lparr>event_id = Some 1, pet_id = ''rex'', remind_at = Some (9, 0),
                          repeat = True, repeat_days = [], repeat_every = 1,
                          remind_date = None\<rparr>]\<rparr>)"
    by (simp add: save_reminder_def get_or_create_def reminder_date_def save_reminder_row_def
        sample_db_def sample_event_def sample_reminder_form_def Let_def)
  from save_reminder_mutual_exclusion [THEN conjunct1, rule_format, OF run] run
  show ?thesis by simp
qed

section \<open>Series-wide edits\<close>

lemma apply_form_frame: "same_frame ev (apply_form fd nd ev)"
  by (simp add: same_frame_def apply_form_def)

lemma write_fields_frame: "same_frame r (write_fields u r)"
  by (simp add: same_frame_def write_fields_def)

lemma update_loop_sound:
  "update_loop d fd upd evs used acc = Inr updated \<Longrightarrow>
     \<exists>new. updated = acc @ new \<and>
       (\<forall>u\<in>set new. \<exists>ev\<in>set evs. \<exists>nd. edit_date fd upd ev = Inr nd \<and> u = apply_form fd nd ev)"
proof (induction evs arbitrary: used acc)
  case Nil
  then show ?case by simp
next
  case (Cons ev evs)
  from Cons.prems obtain nd where nd: "edit_date fd upd ev = Inr nd"
    by (auto split: sum.splits)
  show ?case
  proof (cases "(fd_title fd, nd) \<in> used \<or> check_duplicate d (pet ev) (fd_title fd) nd (pk ev)")
    case True
    with Cons.prems nd have "update_loop d fd upd evs used acc = Inr updated"
      by (auto simp: Let_def split: if_splits)
    from Cons.IH [OF this] show ?thesis by auto
  next
    case False
    with Cons.prems nd
    have "update_loop d fd upd evs (insert (fd_title fd, nd) used)
            (acc @ [apply_form fd nd ev]) = Inr updated"
      by (auto simp: Let_def)
    from Cons.IH [OF this] obtain new where
      "updated = (acc @ [apply_form fd nd ev]) @ new"
      "\<forall>u\<in>set new. \<exists>ev\<in>set evs. \<exists>nd. edit_date fd upd ev = Inr nd \<and> u = apply_form fd nd ev"
      by blast
    with nd show ?thesis
      by (intro exI [of _ "apply_form fd nd ev # new"]) auto
  qed
qed

lemma bulk_update_frame:
  "list_all2 (\<lambda>r r'. same_frame r r' \<and> (pk r \<notin> pk ` set objs \<longrightarrow> r' = r))
     (events d) (events (bulk_update d objs))"
proof -
  have "same_frame r (case find (\<lambda>u. pk u = pk r) objs of None \<Rightarrow> r | Some u \<Rightarrow> write_fields u r) \<and>
        (pk r \<notin> pk ` set objs \<longrightarrow>
           (case find (\<lambda>u. pk u = pk r) objs of None \<Rightarrow> r | Some u \<Rightarrow> write_fields u r) = r)" for r
  proof (cases "find (\<lambda>u. pk u = pk r) objs")
    case None
    then show ?thesis by (simp add: same_frame_def)
  next
    case (Some u)
    from find_Some_holds [OF Some] have "pk r \<in> pk ` set objs"
      by (metis imageI)
    with Some show ?thesis
      by (simp add: write_fields_frame)
  qed
  then show ?thesis
    by (simp add: bulk_update_def list_all2_map2 list_all2_same)
qed

lemma bulk_update_other_tables:
  "reminders (bulk_update d objs) = reminders d \<and> next_pk (bulk_update d objs) = next_pk d"
  by (simp add: bulk_update_def)

text \<open>
  C10. When \<open>update_events\<close> returns, every row of the table keeps its key, owner, head
  reference, \<open>is_done\<close> and \<open>done_year\<close>; a row whose key is not among the accepted entries
  is unchanged altogether; every accepted instance is one of the given entries with only
  the edited fields replaced; the reminders and the key counter are untouched.
\<close>

theorem update_events_frame:
  "update_events d evs fd upd = Inr (updated, d') \<longrightarrow>
     list_all2 (\<lambda>r r'. same_frame r r' \<and> (pk r \<notin> pk ` set updated \<longrightarrow> r' = r))
       (events d) (events d') \<and>
     (\<forall>u\<in>set updated. \<exists>ev\<in>set evs. same_frame ev u) \<and>
     reminders d' = reminders d \<and> next_pk d' = next_pk d"
proof
  assume run: "update_events d evs fd upd = Inr (updated, d')"
  then have loop: "update_loop d fd upd evs {} [] = Inr updated"
    and d': "d' = (if updated \<noteq> [] then bulk_update d updated else d)"
    by (auto simp: update_events_def split: sum.splits)
  from update_loop_sound [OF loop]
  have acc: "\<forall>u\<in>set updated. \<exists>ev\<in>set evs. same_frame ev u"
    using apply_form_frame by fastforce
  have rows: "list_all2 (\<lambda>r r'. same_frame r r' \<and> (pk r \<notin> pk ` set updated \<longrightarrow> r' = r))
       (events d) (events d')"
  proof (cases "updated = []")
    case True
    then show ?thesis
      by (simp add: d' list_all2_same same_frame_def)
  next
    case False
    then show ?thesis
      using bulk_update_frame [of updated d] by (simp add: d')
  qed
  from rows acc show "list_all2 (\<lambda>r r'. same_frame r r' \<and> (pk r \<notin> pk ` set updated \<longrightarrow> r' = r))
       (events d) (events d') \<and>
     (\<forall>u\<in>set updated. \<exists>ev\<in>set evs. same_frame ev u) \<and>
     reminders d' = reminders d \<and> next_pk d' = next_pk d"
    by (simp add: d' bulk_update_other_tables)
qed

lemma sample_title_edit:
  "update_events (sample_db (series_rows ''Vet'')) (series_rows ''Vet'')
       (sample_form ''Checkup'' (ymd 2026 3 15) True) False =
     Inr (series_rows ''Checkup'', sample_db (series_rows ''Checkup''))"
  by (simp add: update_events_def edit_date_def check_duplicate_def apply_form_def
      bulk_update_def write_fields_def sample_db_def series_rows_def sample_event_def
      sample_form_def ymd_def Let_def)

theorem update_events_frame_witness:
  "update_events (sample_db (series_rows ''Vet'')) (series_rows ''Vet'')
       (sample_form ''Checkup'' (ymd 2026 3 15) True) False =
     Inr (series_rows ''Checkup'', sample_db (series_rows ''Checkup'')) \<and>
   list_all2 (\<lambda>r r'. same_frame r r' \<and> (pk r \<notin> pk ` set (series_rows ''Checkup'') \<longrightarrow> r' = r))
     (events (sample_db (series_rows ''Vet''))) (events (sample_db (series_rows ''Checkup''))) \<and>
   reminders (sample_db (series_rows ''Checkup'')) = reminders (sample_db (series_rows ''Vet''))"
  using update_events_frame [rule_format, OF sample_title_edit] sample_title_edit
  by simp


subsection \<open>A title-only edit of a series\<close>

lemma check_duplicate_iff:
  "check_duplicate d p t dt x \<longleftrightarrow>
     (\<exists>r\<in>set (events d). pet r = p \<and> title r = t \<and> date r = dt \<and>
        (x \<noteq> None \<and> x \<noteq> Some 0 \<longrightarrow> pk r \<noteq> x))"
  by (auto simp: check_duplicate_def Let_def filter_empty_conv)

lemma update_loop_accepts_all:
  assumes "distinct (map date evs)"
    and "\<forall>ev\<in>set evs. (fd_title fd, date ev) \<notin> used"
    and "\<forall>ev\<in>set evs. \<not> check_duplicate d (pet ev) (fd_title fd) (date ev) (pk ev)"
  shows "update_loop d fd False evs used acc =
           Inr (acc @ map (\<lambda>ev. apply_form fd (date ev) ev) evs)"
  using assms
proof (induction evs arbitrary: used acc)
  case Nil
  then show ?case by simp
next
  case (Cons ev evs)
  have "update_loop d fd False evs (insert (fd_title fd, date ev) used)
          (acc @ [apply_form fd (date ev) ev]) =
        Inr ((acc @ [apply_form fd (date ev) ev]) @ map (\<lambda>ev. apply_form fd (date ev) ev) evs)"
    using Cons.prems by (intro Cons.IH) (auto intro: rev_image_eqI)
  with Cons.prems show ?case
    by (simp add: edit_date_def Let_def)
qed

lemma apply_form_again:
  "apply_form fd (date (apply_form fd nd ev)) (apply_form fd nd ev) = apply_form fd nd ev"
  by (simp add: apply_form_def)

lemma write_fields_apply_form: "write_fields (apply_form fd nd ev) ev = apply_form fd nd ev"
  by (simp add: write_fields_def apply_form_def)

lemma write_fields_twice: "write_fields u (write_fields u r) = write_fields u r"
  by (simp add: write_fields_def)

lemma pk_write_fields: "pk (write_fields u r) = pk r"
  by (simp add: write_fields_def)

lemma bulk_update_twice: "bulk_update (bulk_update d objs) objs = bulk_update d objs"
proof -
  have "(case find (\<lambda>u. pk u = pk (case find (\<lambda>u. pk u = pk r) objs of None \<Rightarrow> r
                                       | Some u \<Rightarrow> write_fields u r)) objs of
           None \<Rightarrow> (case find (\<lambda>u. pk u = pk r) objs of None \<Rightarrow> r | Some u \<Rightarrow> write_fields u r)
         | Some u' \<Rightarrow> write_fields u'
             (case find (\<lambda>u. pk u = pk r) objs of None \<Rightarrow> r | Some u \<Rightarrow> write_fields u r)) =
        (case find (\<lambda>u. pk u = pk r) objs of None \<Rightarrow> r | Some u \<Rightarrow> write_fields u r)" for r
    by (cases "find (\<lambda>u. pk u = pk r) objs") (simp_all add: pk_write_fields write_fields_twice)
  then show ?thesis
    by (simp add: bulk_update_def comp_def)
qed

text \<open>After the edit has been written, no edited entry collides with another row.\<close>

lemma no_duplicate_after_edit:
  assumes dist: "distinct (map date evs)"
    and keys: "\<forall>ev\<in>set evs. pk ev \<noteq> None \<and> pk ev \<noteq> Some 0"
    and free: "\<forall>ev\<in>set evs. \<not> check_duplicate d (pet ev) (fd_title fd) (date ev) (pk ev)"
    and ev: "ev \<in> set evs"
  shows "\<not> check_duplicate (bulk_update d (map (\<lambda>ev. apply_form fd (date ev) ev) evs))
           (pet ev) (fd_title fd) (date ev) (pk ev)"
proof
  let ?objs = "map (\<lambda>ev. apply_form fd (date ev) ev) evs"
  assume "check_duplicate (bulk_update d ?objs) (pet ev) (fd_title fd) (date ev) (pk ev)"
  then obtain r where r: "r \<in> set (events d)"
    and hit: "pet (case find (\<lambda>u. pk u = pk r) ?objs of None \<Rightarrow> r | Some u \<Rightarrow> write_fields u r) = pet ev"
      "title (case find (\<lambda>u. pk u = pk r) ?objs of None \<Rightarrow> r | Some u \<Rightarrow> write_fields u r) = fd_title fd"
      "date (case find (\<lambda>u. pk u = pk r) ?objs of None \<Rightarrow> r | Some u \<Rightarrow> write_fields u r) = date ev"
      "pk (case find (\<lambda>u. pk u = pk r) ?objs of None \<Rightarrow> r | Some u \<Rightarrow> write_fields u r) \<noteq> pk ev"
    using keys ev by (auto simp: check_duplicate_iff bulk_update_def)
  show False
  proof (cases "find (\<lambda>u. pk u = pk r) ?objs")
    case None
    with r hit keys ev have "check_duplicate d (pet ev) (fd_title fd) (date ev) (pk ev)"
      by (auto simp: check_duplicate_iff)
    with free ev show False by blast
  next
    case (Some u)
    from find_Some_holds [OF Some] obtain ev' where ev': "ev' \<in> set evs"
      and u: "u = apply_form fd (date ev') ev'" and pku: "pk u = pk r"
      by auto
    from Some hit(3) u have "date ev' = date ev"
      by (simp add: write_fields_def apply_form_def)
    with dist ev ev' have "ev' = ev"
      by (meson distinct_map inj_onD)
    with Some hit(4) u pku show False
      by (simp add: write_fields_def apply_form_def)
  qed
qed

lemma edited_rows_stored:
  assumes rows: "set evs \<subseteq> set (events d)" and keys: "distinct (map pk (events d))"
    and ev: "ev \<in> set evs"
  shows "apply_form fd (date ev) ev \<in>
           set (events (bulk_update d (map (\<lambda>ev. apply_form fd (date ev) ev) evs)))"
proof -
  let ?objs = "map (\<lambda>ev. apply_form fd (date ev) ev) evs"
  have "\<exists>x\<in>set ?objs. pk x = pk ev"
    using ev by (force simp: apply_form_def)
  then have "find (\<lambda>u. pk u = pk ev) ?objs \<noteq> None"
    by (simp only: find_not_None_iff)
  then obtain u where f: "find (\<lambda>u. pk u = pk ev) ?objs = Some u"
    by blast
  from find_Some_holds [OF f] obtain ev' where ev': "ev' \<in> set evs"
    and u: "u = apply_form fd (date ev') ev'" and pku: "pk u = pk ev"
    by auto
  from pku u have "pk ev' = pk ev"
    by (simp add: apply_form_def)
  with keys rows ev ev' have "ev' = ev"
    by (meson distinct_map inj_onD subsetD)
  with f u have "(case find (\<lambda>u. pk u = pk ev) ?objs of None \<Rightarrow> ev | Some u \<Rightarrow> write_fields u ev) =
      apply_form fd (date ev) ev"
    by (simp add: write_fields_apply_form)
  moreover have "ev \<in> set (events d)"
    using rows ev by blast
  ultimately show ?thesis
    by (force simp: bulk_update_def)
qed


text \<open>
  C8 (as stated) fails: with \<open>update_date = False\<close> and a changed title, an entry of a
  three-entry series is skipped when another row of the same pet already carries the new
  title on that entry's date. Here the second entry collides with row 4 and only the
  entries 1 and 3 are accepted.
\<close>

theorem update_events_title_counterexample:
  "update_events
       (sample_db (series_rows ''Vet'' @ [sample_event 4 ''Checkup'' (ymd 2027 3 15) False None]))
       (series_rows ''Vet'') (sample_form ''Checkup'' (ymd 2026 3 15) True) False =
     Inr ([sample_event 1 ''Checkup'' (ymd 2026 3 15) True None,
           sample_event 3 ''Checkup'' (ymd 2028 3 15) True (Some 1)],
          sample_db
            [sample_event 1 ''Checkup'' (ymd 2026 3 15) True None,
             sample_event 2 ''Vet'' (ymd 2027 3 15) True (Some 1),
             sample_event 3 ''Checkup'' (ymd 2028 3 15) True (Some 1),
             sample_event 4 ''Checkup'' (ymd 2027 3 15) False None])"
  by (simp add: update_events_def edit_date_def check_duplicate_def apply_form_def
      bulk_update_def write_fields_def sample_db_def series_rows_def sample_event_def
      sample_form_def ymd_def Let_def)

text \<open>
  C8 (amended). Let the entries be stored rows with proper, distinct keys and pairwise
  distinct dates, and let no other row of the same pet already carry the new title on
  one of their dates. Then \<open>update_events\<close> with \<open>update_date = False\<close> accepts every
  entry, keeps every date, sets the new title on all of them, stores the edited rows, and
  running the same edit again on the result accepts the same entries and leaves the
  state as it is, without an error.
\<close>

theorem update_events_title_only:
  assumes "set evs \<subseteq> set (events d)"
    and "distinct (map pk (events d))"
    and "\<forall>ev\<in>set evs. pk ev \<noteq> None \<and> pk ev \<noteq> Some 0"
    and "distinct (map date evs)"
    and "\<forall>ev\<in>set evs. \<not> check_duplicate d (pet ev) (fd_title fd) (date ev) (pk ev)"
  shows "\<exists>updated d1.
           update_events d evs fd False = Inr (updated, d1) \<and>
           updated = map (\<lambda>ev. apply_form fd (date ev) ev) evs \<and>
           length updated = length evs \<and>
           map date updated = map date evs \<and>
           (\<forall>u\<in>set updated. title u = fd_title fd) \<and>
           set updated \<subseteq> set (events d1) \<and>
           update_events d1 updated fd False = Inr (updated, d1)"
proof -
  let ?objs = "map (\<lambda>ev. apply_form fd (date ev) ev) evs"
  let ?d1 = "if ?objs \<noteq> [] then bulk_update d ?objs else d"
  have loop: "update_loop d fd False evs {} [] = Inr ?objs"
    using update_loop_accepts_all [OF assms(4) _ assms(5), of "{}" "[]"] by simp
  then have run: "update_events d evs fd False = Inr (?objs, ?d1)"
    by (simp add: update_events_def)
  have dates: "map date ?objs = map date evs"
    by (simp add: apply_form_def)
  have titles: "\<forall>u\<in>set ?objs. title u = fd_title fd"
    by (simp add: apply_form_def)
  have stored: "set ?objs \<subseteq> set (events ?d1)"
    using edited_rows_stored [OF assms(1,2)] by auto
  have free: "\<forall>u\<in>set ?objs. \<not> check_duplicate ?d1 (pet u) (fd_title fd) (date u) (pk u)"
  proof
    fix u assume "u \<in> set ?objs"
    then obtain ev where ev: "ev \<in> set evs" and u: "u = apply_form fd (date ev) ev"
      by auto
    have "evs \<noteq> []" using ev by auto
    with no_duplicate_after_edit [OF assms(4) assms(3) assms(5) ev]
    show "\<not> check_duplicate ?d1 (pet u) (fd_title fd) (date u) (pk u)"
      by (simp add: u apply_form_def)
  qed
  have "distinct (map date ?objs)"
    using assms(4) by (simp only: dates)
  from update_loop_accepts_all [OF this _ free, of "{}" "[]"]
  have "update_loop ?d1 fd False ?objs {} [] = Inr ?objs"
    by (simp add: apply_form_again comp_def)
  then have again: "update_events ?d1 ?objs fd False = Inr (?objs, ?d1)"
    by (simp add: update_events_def bulk_update_twice)
  from run dates titles stored again show ?thesis
    by (intro exI [of _ ?objs] exI [of _ ?d1]) simp
qed

theorem update_events_title_only_witness:
  "update_events (sample_db (series_rows ''Vet'')) (series_rows ''Vet'')
       (sample_form ''Checkup'' (ymd 2026 3 15) True) False =
     Inr (series_rows ''Checkup'', sample_db (series_rows ''Checkup'')) \<and>
   update_events (sample_db (series_rows ''Checkup'')) (series_rows ''Checkup'')
       (sample_form ''Checkup'' (ymd 2026 3 15) True) False =
     Inr (series_rows ''Checkup'', sample_db (series_rows ''Checkup''))"
proof -
  let ?d = "sample_db (series_rows ''Vet'')" and ?evs = "series_rows ''Vet''"
  let ?fd = "sample_form ''Checkup'' (ymd 2026 3 15) True"
  have h1: "set ?evs \<subseteq> set (events ?d)"
    by (simp add: sample_db_def)
  have h2: "distinct (map pk (events ?d))"
    by (simp add: sample_db_def series_rows_def sample_event_def)
  have h3: "\<forall>ev\<in>set ?evs. pk ev \<noteq> None \<and> pk ev \<noteq> Some 0"
    by (simp add: series_rows_def sample_event_def)
  have h4: "distinct (map date ?evs)"
    by (simp add: series_rows_def sample_event_def ymd_def)
  have h5: "\<forall>ev\<in>set ?evs. \<not> check_duplicate ?d (pet ev) (fd_title ?fd) (date ev) (pk ev)"
    by (simp add: check_duplicate_def sample_db_def series_rows_def sample_event_def
        sample_form_def ymd_def Let_def)
  from update_events_title_only [OF h1 h2 h3 h4 h5] obtain updated d1
    where a: "update_events ?d ?evs ?fd False = Inr (updated, d1)"
      and b: "update_events d1 updated ?fd False = Inr (updated, d1)"
    by blast
  from a have "updated = series_rows ''Checkup''" "d1 = sample_db (series_rows ''Checkup'')"
    by (auto simp: sample_title_edit)
  with a b show ?thesis by simp
qed


section \<open>The rollover job\<close>

lemma get_safe_date_year: "get_safe_date y m d = Inr nd \<Longrightarrow> year nd = y"
  by (auto simp: get_safe_date_def mk_date_Inr_iff split: sum.splits if_splits)

lemma check_duplicate_append:
  "check_duplicate d p t dt None \<Longrightarrow> events d' = events d @ new \<Longrightarrow>
     check_duplicate d' p t dt None"
  by (auto simp: check_duplicate_iff)

lemma check_duplicate_saved:
  "check_duplicate (snd (save_event d (next_year_event ev nd))) (pet ev) (title ev) nd None"
  by (simp add: check_duplicate_iff save_event_def next_year_event_def Let_def)

lemma save_event_rows:
  "events (snd (save_event d e)) = events d @ [e\<lparr>pk := Some (next_pk d)\<rparr>] \<and>
   reminders (snd (save_event d e)) = reminders d"
  by (simp add: save_event_def Let_def)

lemma rollover_loop_grows:
  "rollover_loop ty evs d n = Inr (n', d') \<Longrightarrow>
     \<exists>new. events d' = events d @ new \<and> n' = n + length new \<and>
       (\<forall>r\<in>set new. year (date r) = ty) \<and> reminders d' = reminders d \<and>
       (\<forall>ev\<in>set evs. \<exists>nd. get_safe_date ty (month (date ev)) (day (date ev)) = Inr nd \<and>
                          check_duplicate d' (pet ev) (title ev) nd None)"
proof (induction evs arbitrary: d n)
  case Nil
  then show ?case by simp
next
  case (Cons ev evs)
  from Cons.prems obtain nd
    where nd: "get_safe_date ty (month (date ev)) (day (date ev)) = Inr nd"
    by (auto split: sum.splits)
  show ?case
  proof (cases "check_duplicate d (pet ev) (title ev) nd None")
    case True
    with Cons.prems nd have "rollover_loop ty evs d n = Inr (n', d')"
      by simp
    from Cons.IH [OF this] obtain new where new: "events d' = events d @ new"
      "n' = n + length new" "\<forall>r\<in>set new. year (date r) = ty" "reminders d' = reminders d"
      "\<forall>ev\<in>set evs. \<exists>nd. get_safe_date ty (month (date ev)) (day (date ev)) = Inr nd \<and>
                          check_duplicate d' (pet ev) (title ev) nd None"
      by blast
    from True new(1) have "check_duplicate d' (pet ev) (title ev) nd None"
      by (rule check_duplicate_append)
    with nd new show ?thesis
      by (intro exI [of _ new]) simp
  next
    case False
    let ?e = "next_year_event ev nd"
    let ?d1 = "snd (save_event d ?e)"
    from False Cons.prems nd have "rollover_loop ty evs ?d1 (n + 1) = Inr (n', d')"
      by simp
    from Cons.IH [OF this] obtain new where new: "events d' = events ?d1 @ new"
      "n' = n + 1 + length new" "\<forall>r\<in>set new. year (date r) = ty"
      "reminders d' = reminders ?d1"
      "\<forall>ev\<in>set evs. \<exists>nd. get_safe_date ty (month (date ev)) (day (date ev)) = Inr nd \<and>
                          check_duplicate d' (pet ev) (title ev) nd None"
      by blast
    have "check_duplicate d' (pet ev) (title ev) nd None"
      using check_duplicate_saved new(1) by (rule check_duplicate_append)
    moreover have "year (date (?e\<lparr>pk := Some (next_pk d)\<rparr>)) = ty"
      using get_safe_date_year [OF nd] by (simp add: next_year_event_def)
    ultimately show ?thesis
      using nd new save_event_rows [of d ?e]
      by (intro exI [of _ "?e\<lparr>pk := Some (next_pk d)\<rparr> # new"]) simp
  qed
qed

lemma rollover_loop_noop:
  "\<forall>ev\<in>set evs. \<exists>nd. get_safe_date ty (month (date ev)) (day (date ev)) = Inr nd \<and>
                     check_duplicate d (pet ev) (title ev) nd None \<Longrightarrow>
     rollover_loop ty evs d n = Inr (n, d)"
  by (induction evs) auto

lemma rollover_loop_returns:
  "year_ok ty \<Longrightarrow> \<forall>ev\<in>set evs. valid_date (date ev) \<Longrightarrow>
     \<exists>n' d'. rollover_loop ty evs d n = Inr (n', d')"
proof (induction evs arbitrary: d n)
  case Nil
  then show ?case by simp
next
  case (Cons ev evs)
  from Cons.prems have "valid_ymd (year (date ev)) (month (date ev)) (day (date ev))"
    by (simp add: valid_date_def)
  from get_safe_date_template [OF this Cons.prems(1)]
  obtain nd where "get_safe_date ty (month (date ev)) (day (date ev)) = Inr nd"
    by blast
  with Cons.IH [OF Cons.prems(1)] Cons.prems(2) show ?case
    by simp
qed

text \<open>
  C6. \<open>create_next_year_events\<close> is idempotent: when a run returns, a second run with the
  same current year on the resulting state creates nothing and leaves the state as it is,
  because every candidate now fails the duplicate check. A run always returns when the
  target year is one a date can hold and the stored dates are valid.
\<close>

theorem create_next_year_events_idempotent:
  "(create_next_year_events current_year d = Inr (n, d') \<longrightarrow>
      create_next_year_events current_year d' = Inr (0, d')) \<and>
   (year_ok (current_year + 2) \<and> (\<forall>r\<in>set (events d). valid_date (date r)) \<longrightarrow>
      (\<exists>n1 d1. create_next_year_events current_year d = Inr (n1, d1)))"
proof (intro conjI impI)
  let ?ty = "current_year + 1 + 1"
  let ?P = "\<lambda>r. is_yearly r \<and> year (date r) = current_year - 1"
  assume "create_next_year_events current_year d = Inr (n, d')"
  then have run: "rollover_loop ?ty (filter ?P (events d)) d 0 = Inr (n, d')"
    by (simp add: create_next_year_events_def Let_def)
  from rollover_loop_grows [OF run] obtain new where new: "events d' = events d @ new"
    "\<forall>r\<in>set new. year (date r) = ?ty"
    and dup: "\<forall>ev\<in>set (filter ?P (events d)).
           \<exists>nd. get_safe_date ?ty (month (date ev)) (day (date ev)) = Inr nd \<and>
                check_duplicate d' (pet ev) (title ev) nd None"
    by blast
  from new(2) have "filter ?P new = []"
    by (auto simp: filter_empty_conv)
  with new(1) have "filter ?P (events d') = filter ?P (events d)"
    by simp
  with rollover_loop_noop [OF dup, of 0]
  show "create_next_year_events current_year d' = Inr (0, d')"
    by (simp add: create_next_year_events_def Let_def)
next
  assume a: "year_ok (current_year + 2) \<and> (\<forall>r\<in>set (events d). valid_date (date r))"
  then have "year_ok (current_year + 1 + 1)"
    by (simp add: add.assoc)
  moreover from a have "\<forall>ev\<in>set (filter (\<lambda>r. is_yearly r \<and> year (date r) = current_year - 1)
      (events d)). valid_date (date ev)"
    by simp
  ultimately show "\<exists>n1 d1. create_next_year_events current_year d = Inr (n1, d1)"
    using rollover_loop_returns by (simp add: create_next_year_events_def Let_def)
qed

lemma sample_rollover:
  "create_next_year_events 2026 (sample_db window_rows) =
     Inr (1, sample_db (window_rows @ [sample_event 4 ''Vet'' (ymd 2028 3 15) True (Some 1)]))"
  by (simp add: create_next_year_events_def check_duplicate_def get_safe_date_def mk_date_def
      days_in_month_def is_leap_def MINYEAR_def MAXYEAR_def save_event_def next_year_event_def
      sample_db_def window_rows_def sample_event_def ymd_def Let_def)

theorem create_next_year_events_idempotent_witness:
  "create_next_year_events 2026 (sample_db window_rows) =
     Inr (1, sample_db (window_rows @ [sample_event 4 ''Vet'' (ymd 2028 3 15) True (Some 1)])) \<and>
   create_next_year_events 2026
       (sample_db (window_rows @ [sample_event 4 ''Vet'' (ymd 2028 3 15) True (Some 1)])) =
     Inr (0, sample_db (window_rows @ [sample_event 4 ''Vet'' (ymd 2028 3 15) True (Some 1)])) \<and>
   year_ok (2026 + 2) \<and> list_all (\<lambda>r. valid_date (date r)) (events (sample_db window_rows)) \<and>
   (\<exists>n1 d1. create_next_year_events 2026 (sample_db window_rows) = Inr (n1, d1))"
proof -
  have v: "year_ok (2026 + 2) \<and> (\<forall>r\<in>set (events (sample_db window_rows)). valid_date (date r))"
    by (simp add: year_ok_def MINYEAR_def MAXYEAR_def valid_date_def valid_ymd_def
        days_in_month_def sample_db_def window_rows_def sample_event_def ymd_def)
  from create_next_year_events_idempotent [THEN conjunct2, rule_format, OF v]
  have "\<exists>n1 d1. create_next_year_events 2026 (sample_db window_rows) = Inr (n1, d1)" .
  with v create_next_year_events_idempotent [THEN conjunct1, rule_format, OF sample_rollover]
    sample_rollover
  show ?thesis
    by (simp add: list_all_iff)
qed


section \<open>Deleting entries\<close>

lemma doomed_selected: "P r \<Longrightarrow> doomed rows P n r"
  by (induction n) auto

lemma doomed_head: "doomed rows P n r \<Longrightarrow> original_event r = None \<Longrightarrow> P r"
  by (induction n) auto

lemma delete_events_removes:
  assumes "\<And>r. P (r\<lparr>original_event := None\<rparr>) = P r"
  shows "\<forall>r\<in>set (events (delete_events pol P d)). \<not> P r"
proof (cases pol)
  case CASCADE
  then show ?thesis
    using doomed_selected [of P _ "events d"] by (auto simp: delete_events_def Let_def)
next
  case SET_NULL
  then show ?thesis
    using assms by (auto simp: delete_events_def Let_def)
qed

lemma delete_events_keeps_heads:
  assumes "r \<in> set (events d)" and "original_event r = None" and "\<not> P r"
  shows "r \<in> set (events (delete_events pol P d))"
proof (cases pol)
  case CASCADE
  from assms(2,3) have "\<not> doomed (events d) P (length (events d)) r"
    using doomed_head by blast
  with CASCADE assms(1) show ?thesis
    by (simp add: delete_events_def Let_def)
next
  case SET_NULL
  with assms show ?thesis
    by (force simp: delete_events_def Let_def)
qed

lemma delete_events_rows:
  "\<forall>r'\<in>set (events (delete_events pol P d)).
     \<exists>r\<in>set (events d). r' = r \<or> r' = r\<lparr>original_event := None\<rparr>"
  by (cases pol) (auto simp: delete_events_def Let_def)

lemma delete_event_found:
  assumes "find (\<lambda>r. pk r = Some (rq_event_id rq)) (events d) = Some ev"
    and "rq_is_owner rq" and "rq_method rq = ''POST''"
  shows "delete_event pol d rq =
     (if is_yearly ev \<and> recurring_events d ev \<noteq> [] \<and> original_event ev = None \<and>
         rq_delete_all rq \<noteq> Some ''on''
      then (RedirectProtected (SeriesHeadProtected (title ev)), d)
      else if rq_delete_all rq = Some ''on'' \<and> is_yearly ev
      then (RedirectDeleted,
            delete_events pol (\<lambda>r. pet r = pet ev \<and> title r = title ev \<and> is_yearly r) d)
      else (RedirectDeleted, delete_events pol (\<lambda>r. pk r = pk ev) d))"
  using assms by (simp add: delete_event_def Let_def)


text \<open>
  C4 (as stated) fails: the protection tests \<open>is_yearly\<close> of the head as well. A head
  whose yearly flag is off, with a continuation that references it, is deleted by a
  request without \<open>delete_all\<close>, under either on-delete rule.
\<close>

theorem delete_event_head_counterexample:
  "recurring_events
       (sample_db [sample_event 1 ''Vet'' (ymd 2026 3 15) False None,
                   sample_event 2 ''Vet'' (ymd 2027 3 15) True (Some 1)])
       (sample_event 1 ''Vet'' (ymd 2026 3 15) False None) =
     [sample_event 2 ''Vet'' (ymd 2027 3 15) True (Some 1)] \<and>
   delete_event CASCADE
       (sample_db [sample_event 1 ''Vet'' (ymd 2026 3 15) False None,
                   sample_event 2 ''Vet'' (ymd 2027 3 15) True (Some 1)])
       (sample_request 1 None) =
     (RedirectDeleted, \<lparr>events = [], next_pk = 3, reminders = []\<rparr>) \<and>
   delete_event SET_NULL
       (sample_db [sample_event 1 ''Vet'' (ymd 2026 3 15) False None,
                   sample_event 2 ''Vet'' (ymd 2027 3 15) True (Some 1)])
       (sample_request 1 None) =
     (RedirectDeleted,
      \<lparr>events = [sample_event 2 ''Vet'' (ymd 2027 3 15) True None], next_pk = 3,
       reminders = []\<rparr>)"
  by code_simp

text \<open>
  C4 (amended). For every series head that is flagged yearly and has at least one
  continuation, \<open>delete_event\<close> on an owner's POST request without \<open>delete_all\<close> answers
  with the protection message and leaves the whole database unchanged.
\<close>

theorem delete_event_head_protected:
  assumes "find (\<lambda>r. pk r = Some (rq_event_id rq)) (events d) = Some ev"
    and "rq_is_owner rq" and "rq_method rq = ''POST''"
    and "is_yearly ev" and "original_event ev = None" and "recurring_events d ev \<noteq> []"
    and "rq_delete_all rq \<noteq> Some ''on''"
  shows "delete_event pol d rq = (RedirectProtected (SeriesHeadProtected (title ev)), d)"
  using assms by (simp add: delete_event_found)

theorem delete_event_head_protected_witness:
  "find (\<lambda>r. pk r = Some (rq_event_id (sample_request 1 None)))
       (events (sample_db (series_rows ''Vet''))) =
     Some (sample_event 1 ''Vet'' (ymd 2026 3 15) True None) \<and>
   recurring_events (sample_db (series_rows ''Vet''))
       (sample_event 1 ''Vet'' (ymd 2026 3 15) True None) =
     [sample_event 2 ''Vet'' (ymd 2027 3 15) True (Some 1),
      sample_event 3 ''Vet'' (ymd 2028 3 15) True (Some 1)] \<and>
   delete_event CASCADE (sample_db (series_rows ''Vet'')) (sample_request 1 None) =
     (RedirectProtected (SeriesHeadProtected ''Vet''), sample_db (series_rows ''Vet'')) \<and>
   delete_event SET_NULL (sample_db (series_rows ''Vet'')) (sample_request 1 None) =
     (RedirectProtected (SeriesHeadProtected ''Vet''), sample_db (series_rows ''Vet''))"
proof -
  let ?d = "sample_db (series_rows ''Vet'')" and ?rq = "sample_request 1 None"
  let ?ev = "sample_event 1 ''Vet'' (ymd 2026 3 15) True None"
  have f: "find (\<lambda>r. pk r = Some (rq_event_id ?rq)) (events ?d) = Some ?ev"
    by (simp add: sample_db_def series_rows_def sample_event_def sample_request_def)
  have rec: "recurring_events ?d ?ev =
     [sample_event 2 ''Vet'' (ymd 2027 3 15) True (Some 1),
      sample_event 3 ''Vet'' (ymd 2028 3 15) True (Some 1)]"
    by (simp add: recurring_events_def sample_db_def series_rows_def sample_event_def)
  have h: "rq_is_owner ?rq" "rq_method ?rq = ''POST''" "is_yearly ?ev"
    "original_event ?ev = None" "recurring_events ?d ?ev \<noteq> []"
    "rq_delete_all ?rq \<noteq> Some ''on''"
    using rec by (simp_all add: sample_request_def sample_event_def)
  from delete_event_head_protected [OF f h, of CASCADE]
    delete_event_head_protected [OF f h, of SET_NULL] f rec
  show ?thesis
    by (simp add: sample_event_def)
qed


text \<open>
  C5. The claim is that \<open>delete_all\<close> deletes exactly the resolved series, the head and
  the rows that reference it, as \<open>get_series_events\<close> resolves it for an edit. The
  deletion selects by pet, title and yearly flag instead. Two separate yearly heads of one
  pet with the same title: the resolved series of the first is the first alone, and
  deleting it with \<open>delete_all\<close> removes the second too, under either on-delete rule.
\<close>

theorem delete_event_removes_other_series:
  "get_series_events
       (sample_db [sample_event 1 ''Vet'' (ymd 2026 3 15) True None,
                   sample_event 2 ''Vet'' (ymd 2026 9 1) True None])
       (sample_event 1 ''Vet'' (ymd 2026 3 15) True None) =
     Inr [sample_event 1 ''Vet'' (ymd 2026 3 15) True None] \<and>
   delete_event CASCADE
       (sample_db [sample_event 1 ''Vet'' (ymd 2026 3 15) True None,
                   sample_event 2 ''Vet'' (ymd 2026 9 1) True None])
       (sample_request 1 (Some ''on'')) =
     (RedirectDeleted, \<lparr>events = [], next_pk = 3, reminders = []\<rparr>) \<and>
   delete_event SET_NULL
       (sample_db [sample_event 1 ''Vet'' (ymd 2026 3 15) True None,
                   sample_event 2 ''Vet'' (ymd 2026 9 1) True None])
       (sample_request 1 (Some ''on'')) =
     (RedirectDeleted, \<lparr>events = [], next_pk = 3, reminders = []\<rparr>)"
  by code_simp

text \<open>
  What the deletion does in general: for a yearly entry, an owner's POST request with
  \<open>delete_all\<close> removes every row of the same pet with the same title and the yearly flag
  set, the entry itself among them, whether or not the row belongs to the entry's
  series; a row without a head reference that is not selected in this way is kept as it
  is; and every row that remains is a row of the old state, unchanged or with its head
  reference cleared.
\<close>

lemma delete_event_delete_all:
  assumes "find (\<lambda>r. pk r = Some (rq_event_id rq)) (events d) = Some ev"
    and "rq_is_owner rq" and "rq_method rq = ''POST''"
    and "is_yearly ev" and "rq_delete_all rq = Some ''on''"
  shows "\<exists>d'. delete_event pol d rq = (RedirectDeleted, d') \<and>
           (\<forall>r\<in>set (events d'). \<not> (pet r = pet ev \<and> title r = title ev \<and> is_yearly r)) \<and>
           ev \<notin> set (events d') \<and>
           (\<forall>r\<in>set (events d).
              original_event r = None \<and> \<not> (pet r = pet ev \<and> title r = title ev \<and> is_yearly r)
                \<longrightarrow> r \<in> set (events d')) \<and>
           (\<forall>r'\<in>set (events d'). \<exists>r\<in>set (events d).
              r' = r \<or> r' = r\<lparr>original_event := None\<rparr>)"
proof -
  let ?P = "\<lambda>r. pet r = pet ev \<and> title r = title ev \<and> is_yearly r"
  let ?d' = "delete_events pol ?P d"
  from assms have run: "delete_event pol d rq = (RedirectDeleted, ?d')"
    by (simp add: delete_event_found)
  have gone: "\<forall>r\<in>set (events ?d'). \<not> ?P r"
    by (rule delete_events_removes) simp
  with assms(4) have "ev \<notin> set (events ?d')"
    by blast
  moreover have "\<forall>r\<in>set (events d). original_event r = None \<and> \<not> ?P r \<longrightarrow> r \<in> set (events ?d')"
    using delete_events_keeps_heads [of _ d ?P pol] by blast
  ultimately show ?thesis
    using run gone delete_events_rows [of pol ?P d] by blast
qed

lemma sample_delete_all:
  "delete_event CASCADE
       (sample_db (series_rows ''Vet'' @ [sample_event 4 ''Walk'' (ymd 2026 5 1) False None]))
       (sample_request 1 (Some ''on'')) =
     (RedirectDeleted,
      \<lparr>events = [sample_event 4 ''Walk'' (ymd 2026 5 1) False None], next_pk = 5,
       reminders = []\<rparr>) \<and>
   delete_event SET_NULL
       (sample_db (series_rows ''Vet'' @ [sample_event 4 ''Walk'' (ymd 2026 5 1) False None]))
       (sample_request 1 (Some ''on'')) =
     (RedirectDeleted,
      \<lparr>events = [sample_event 4 ''Walk'' (ymd 2026 5 1) False None], next_pk = 5,
       reminders = []\<rparr>)"
  by code_simp

lemma delete_event_delete_all_sample:
  "find (\<lambda>r. pk r = Some (rq_event_id (sample_request 1 (Some ''on''))))
       (events (sample_db (series_rows ''Vet'' @
          [sample_event 4 ''Walk'' (ymd 2026 5 1) False None]))) =
     Some (sample_event 1 ''Vet'' (ymd 2026 3 15) True None) \<and>
   delete_event CASCADE
       (sample_db (series_rows ''Vet'' @ [sample_event 4 ''Walk'' (ymd 2026 5 1) False None]))
       (sample_request 1 (Some ''on'')) =
     (RedirectDeleted,
      \<lparr>events = [sample_event 4 ''Walk'' (ymd 2026 5 1) False None], next_pk = 5,
       reminders = []\<rparr>) \<and>
   sample_event 1 ''Vet'' (ymd 2026 3 15) True None \<notin>
     set [sample_event 4 ''Walk'' (ymd 2026 5 1) False None]"
proof -
  let ?d = "sample_db (series_rows ''Vet'' @ [sample_event 4 ''Walk'' (ymd 2026 5 1) False None])"
  let ?rq = "sample_request 1 (Some ''on'')"
  let ?ev = "sample_event 1 ''Vet'' (ymd 2026 3 15) True None"
  have f: "find (\<lambda>r. pk r = Some (rq_event_id ?rq)) (events ?d) = Some ?ev"
    by (simp add: sample_db_def series_rows_def sample_event_def sample_request_def)
  have h: "rq_is_owner ?rq" "rq_method ?rq = ''POST''" "is_yearly ?ev"
    "rq_delete_all ?rq = Some ''on''"
    by (simp_all add: sample_request_def sample_event_def)
  from delete_event_delete_all [OF f h, of CASCADE] obtain d'
    where "delete_event CASCADE ?d ?rq = (RedirectDeleted, d')" and "?ev \<notin> set (events d')"
    by blast
  with sample_delete_all f show ?thesis
    by auto
qed


section \<open>Creating a yearly series\<close>

lemma get_safe_date_leap_corrected:
  "valid_date dt \<Longrightarrow> year_ok y \<Longrightarrow>
     get_safe_date y (month dt) (day dt) = Inr (leap_corrected dt y)"
  using get_safe_date_template [of "year dt" "month dt" "day dt" y]
  by (simp add: valid_date_def leap_corrected_def)

lemma year_leap_corrected: "year (leap_corrected dt y) = y"
  by (simp add: leap_corrected_def)

text \<open>Once the head exists the loop only collects: the database no longer changes.\<close>

lemma series_loop_collects:
  assumes "fd_date fd = Some dt" and "valid_date dt" and "\<forall>y\<in>set ys. year_ok y"
  shows "series_loop p fd ys d (Some h) created =
     Inr ((Some h,
           created @ map (\<lambda>y. new_series_event p fd (leap_corrected dt y) (Some h))
             (filter (\<lambda>y. \<not> check_duplicate d p (fd_title fd) (leap_corrected dt y) None) ys)),
          d)"
  using assms(3)
proof (induction ys arbitrary: created)
  case Nil
  then show ?case by simp
next
  case (Cons y ys)
  then have "get_safe_date y (month dt) (day dt) = Inr (leap_corrected dt y)"
    using get_safe_date_leap_corrected [OF assms(2)] by simp
  with Cons assms(1) show ?case
    by (simp add: Let_def)
qed

lemma check_duplicate_after_save:
  "check_duplicate (snd (save_event d e)) p t dt None \<longleftrightarrow>
     check_duplicate d p t dt None \<or> (pet e = p \<and> title e = t \<and> date e = dt)"
  by (auto simp: check_duplicate_iff save_event_def Let_def)

lemma series_loop_head:
  assumes "fd_date fd = Some dt" and "valid_date dt"
    and "\<forall>y\<in>set ys. year_ok y" and "distinct ys"
  shows "series_loop p fd ys d None [] =
     (case filter (\<lambda>y. \<not> check_duplicate d p (fd_title fd) (leap_corrected dt y) None) ys of
        [] \<Rightarrow> Inr ((None, []), d)
      | y # rest \<Rightarrow>
          Inr ((Some (fst (save_event d (new_series_event p fd (leap_corrected dt y) None))),
                map (\<lambda>y'. new_series_event p fd (leap_corrected dt y')
                       (Some (fst (save_event d
                          (new_series_event p fd (leap_corrected dt y) None))))) rest),
               snd (save_event d (new_series_event p fd (leap_corrected dt y) None))))"
  using assms(3,4)
proof (induction ys)
  case Nil
  then show ?case by simp
next
  case (Cons y ys)
  let ?free = "\<lambda>d y. \<not> check_duplicate d p (fd_title fd) (leap_corrected dt y) None"
  have safe: "get_safe_date y (month dt) (day dt) = Inr (leap_corrected dt y)"
    using get_safe_date_leap_corrected [OF assms(2)] Cons.prems by simp
  show ?case
  proof (cases "?free d y")
    case False
    with Cons safe assms(1) show ?thesis
      by (simp add: Let_def)
  next
    case True
    let ?e = "new_series_event p fd (leap_corrected dt y) None"
    let ?h = "fst (save_event d ?e)" and ?d1 = "snd (save_event d ?e)"
    have same: "filter (?free ?d1) ys = filter (?free d) ys"
    proof (rule filter_cong [OF refl])
      fix y' assume "y' \<in> set ys"
      with Cons.prems have "y' \<noteq> y" by auto
      then have "leap_corrected dt y \<noteq> leap_corrected dt y'"
        by (metis year_leap_corrected)
      then show "?free ?d1 y' = ?free d y'"
        by (simp add: check_duplicate_after_save new_series_event_def)
    qed
    have "series_loop p fd ys ?d1 (Some ?h) [] =
       Inr ((Some ?h, [] @ map (\<lambda>y'. new_series_event p fd (leap_corrected dt y') (Some ?h))
              (filter (?free ?d1) ys)), ?d1)"
      using Cons.prems by (intro series_loop_collects [OF assms(1,2)]) simp
    with True safe assms(1) same show ?thesis
      by (simp add: Let_def split_beta)
  qed
qed


lemma bulk_create_rows:
  "bulk_create d es = (es', d') \<Longrightarrow>
     events d' = events d @ es' \<and> reminders d' = reminders d \<and>
     list_all2 (\<lambda>e e'. e' = e\<lparr>pk := pk e'\<rparr> \<and> pk e' \<noteq> None) es es'"
proof (induction es arbitrary: d es' d')
  case Nil
  then show ?case by simp
next
  case (Cons e es)
  obtain rest d2 where rest: "bulk_create (snd (save_event d e)) es = (rest, d2)"
    by (cases "bulk_create (snd (save_event d e)) es")
  with Cons.prems have es': "es' = fst (save_event d e) # rest" and d': "d' = d2"
    by (simp_all add: Let_def split_beta)
  from Cons.IH [OF rest] es' d' show ?case
    by (simp add: save_event_def Let_def)
qed

lemma save_event_result:
  "fst (save_event d e) = e\<lparr>pk := Some (next_pk d)\<rparr> \<and>
   events (snd (save_event d e)) = events d @ [e\<lparr>pk := Some (next_pk d)\<rparr>]"
  by (simp add: save_event_def Let_def)

text \<open>
  The result of \<open>create_yearly_series\<close> for a valid template and distinct representable
  years: the series consists of exactly the years without a duplicate, in order, on
  their leap-corrected dates; its head is the first of them; there is no head only when
  every year was skipped, and then nothing was written.
\<close>

lemma create_yearly_series_result:
  assumes "fd_date fd = Some dt" and "valid_date dt"
    and "\<forall>y\<in>set years. year_ok y" and "distinct years"
  shows "\<exists>orig created d'.
     create_yearly_series d p fd years = Inr ((orig, created), d') \<and>
     (orig = None \<longleftrightarrow>
        filter (\<lambda>y. \<not> check_duplicate d p (fd_title fd) (leap_corrected dt y) None) years = []) \<and>
     (orig = None \<longrightarrow> created = [] \<and> d' = d) \<and>
     (\<forall>h. orig = Some h \<longrightarrow>
        events d' = events d @ h # created \<and>
        map date (h # created) =
          map (leap_corrected dt)
            (filter (\<lambda>y. \<not> check_duplicate d p (fd_title fd) (leap_corrected dt y) None) years) \<and>
        pk h = Some (next_pk d) \<and> original_event h = None \<and>
        (\<forall>c\<in>set created. original_event c = pk h \<and> pk c \<noteq> None) \<and>
        (\<forall>e\<in>set (h # created). pet e = p \<and> title e = fd_title fd \<and> is_yearly e \<and> \<not> is_done e))"
proof (cases "filter (\<lambda>y. \<not> check_duplicate d p (fd_title fd) (leap_corrected dt y) None) years")
  case Nil
  with series_loop_head [OF assms, of p d] show ?thesis
    by (simp add: create_yearly_series_def)
next
  case (Cons y rest)
  let ?e = "new_series_event p fd (leap_corrected dt y) None"
  let ?h = "fst (save_event d ?e)" and ?d1 = "snd (save_event d ?e)"
  let ?cr = "map (\<lambda>y'. new_series_event p fd (leap_corrected dt y') (Some ?h)) rest"
  from Cons series_loop_head [OF assms, of p d]
  have loop: "series_loop p fd years d None [] = Inr ((Some ?h, ?cr), ?d1)"
    by simp
  have h: "pk ?h = Some (next_pk d)" "original_event ?h = None" "date ?h = leap_corrected dt y"
    "pet ?h = p" "title ?h = fd_title fd" "is_yearly ?h" "\<not> is_done ?h"
    "events ?d1 = events d @ [?h]"
    by (simp_all add: save_event_def new_series_event_def Let_def)
  obtain cr' d2 where bulk: "bulk_create ?d1 ?cr = (cr', d2)"
    by (cases "bulk_create ?d1 ?cr")
  from bulk_create_rows [OF bulk] have rows: "events d2 = events ?d1 @ cr'"
    and rel: "list_all2 (\<lambda>e e'. e' = e\<lparr>pk := pk e'\<rparr> \<and> pk e' \<noteq> None) ?cr cr'"
    by simp_all
  from rel have len: "length cr' = length rest"
    by (simp add: list_all2_lengthD [symmetric])
  from rel have each: "\<forall>i<length rest.
      cr' ! i = (new_series_event p fd (leap_corrected dt (rest ! i)) (Some ?h))\<lparr>pk := pk (cr' ! i)\<rparr> \<and>
      pk (cr' ! i) \<noteq> None"
    by (auto simp: list_all2_conv_all_nth)
  have dates: "map date cr' = map (leap_corrected dt) rest"
  proof (rule nth_equalityI)
    show "length (map date cr') = length (map (leap_corrected dt) rest)"
      by (simp add: len)
  next
    fix i assume "i < length (map date cr')"
    then have i: "i < length rest" by (simp add: len)
    with each have "date (cr' ! i) = leap_corrected dt (rest ! i)"
      by (metis (no_types, lifting) new_series_event_def event.select_convs(5)
          event.surjective event.update_convs(1))
    with i show "map date cr' ! i = map (leap_corrected dt) rest ! i"
      by (simp add: len)
  qed
  have props: "\<forall>c\<in>set cr'. original_event c = pk ?h \<and> pk c \<noteq> None \<and> pet c = p \<and>
      title c = fd_title fd \<and> is_yearly c \<and> \<not> is_done c"
  proof
    fix c assume "c \<in> set cr'"
    then obtain i where i: "i < length rest" and c: "c = cr' ! i"
      by (auto simp: in_set_conv_nth len)
    from each i have c': "c = (new_series_event p fd (leap_corrected dt (rest ! i)) (Some ?h))\<lparr>pk := pk c\<rparr>"
      and k: "pk c \<noteq> None"
      by (simp_all add: c)
    have "original_event c = pk ?h \<and> pet c = p \<and> title c = fd_title fd \<and> is_yearly c \<and> \<not> is_done c"
      by (subst c', simp add: new_series_event_def)+
    with k show "original_event c = pk ?h \<and> pk c \<noteq> None \<and> pet c = p \<and>
      title c = fd_title fd \<and> is_yearly c \<and> \<not> is_done c"
      by simp
  qed
  show ?thesis
  proof (cases "rest = []")
    case True
    with loop have "create_yearly_series d p fd years = Inr ((Some ?h, []), ?d1)"
      by (simp add: create_yearly_series_def)
    with Cons True h show ?thesis
      by simp
  next
    case False
    with loop bulk have "create_yearly_series d p fd years = Inr ((Some ?h, cr'), d2)"
      by (simp add: create_yearly_series_def)
    with Cons h rows dates props show ?thesis
      by simp
  qed
qed


subsection \<open>The caller: _create_yearly_event_v2\<close>

lemma series_loop_keeps_head:
  "series_loop p fd ys d (Some h) cr = Inr ((orig, cr'), d') \<Longrightarrow> orig = Some h"
  by (induction ys arbitrary: cr)
     (auto simp: Let_def split: option.splits sum.splits if_splits)

lemma series_loop_no_head:
  "series_loop p fd ys d None [] = Inr ((None, cr), d') \<Longrightarrow> cr = [] \<and> d' = d"
proof (induction ys)
  case Nil
  then show ?case by simp
next
  case (Cons y ys)
  then show ?case
    by (auto simp: Let_def split_beta split: option.splits sum.splits if_splits
        dest: series_loop_keeps_head)
qed

lemma create_yearly_series_no_head:
  assumes "create_yearly_series d p fd ys = Inr ((None, cr), d')"
  shows "cr = [] \<and> d' = d"
proof -
  from assms obtain orig cr0 d0
    where loop: "series_loop p fd ys d None [] = Inr ((orig, cr0), d0)"
    by (auto simp: create_yearly_series_def split: sum.splits)
  with assms have "orig = None"
    by (auto simp: create_yearly_series_def split_beta split: if_splits)
  with loop series_loop_no_head have "cr0 = [] \<and> d0 = d"
    by blast
  with assms loop show ?thesis
    by (simp add: create_yearly_series_def)
qed

lemma create_yearly_event_v2_message:
  assumes "create_yearly_event_v2 cy d p fd rf = Inr (Inl msg, d')"
  shows "d' = d"
  using assms create_yearly_series_no_head [of d p fd]
  by (auto simp: create_yearly_event_v2_def Let_def
      split: option.splits sum.splits if_splits prod.splits)

lemma create_yearly_event_v2_guard:
  assumes "fd_date fd = Some dt" and "valid_date dt"
    and "year_ok (fst (calculate_yearly_start_year cy dt))"
    and "check_duplicate d p (fd_title fd)
           (leap_corrected dt (fst (calculate_yearly_start_year cy dt))) None"
  shows "create_yearly_event_v2 cy d p fd rf =
     Inr (Inl (DuplicateExists (leap_corrected dt (fst (calculate_yearly_start_year cy dt)))), d)"
  using assms get_safe_date_leap_corrected [OF assms(2,3)]
  by (simp add: create_yearly_event_v2_def Let_def)

lemma create_yearly_event_v2_series:
  assumes "fd_date fd = Some dt" and "valid_date dt"
    and "year_ok (fst (calculate_yearly_start_year cy dt))"
    and "year_ok (fst (calculate_yearly_start_year cy dt) + 2)"
    and "\<not> check_duplicate d p (fd_title fd)
           (leap_corrected dt (fst (calculate_yearly_start_year cy dt))) None"
  shows "\<exists>h created d1.
     create_yearly_series d p fd
       [fst (calculate_yearly_start_year cy dt), fst (calculate_yearly_start_year cy dt) + 1,
        fst (calculate_yearly_start_year cy dt) + 2] = Inr ((Some h, created), d1) \<and>
     date h = leap_corrected dt (fst (calculate_yearly_start_year cy dt)) \<and>
     create_yearly_event_v2 cy d p fd rf =
       (case save_reminders_for_events d1 (h # created) rf of
          Inl x \<Rightarrow> Inl x
        | Inr (rs, d2) \<Rightarrow> Inr (Inr (h # created), d2))"
proof -
  let ?s = "fst (calculate_yearly_start_year cy dt)"
  let ?free = "\<lambda>y. \<not> check_duplicate d p (fd_title fd) (leap_corrected dt y) None"
  have ok: "\<forall>y\<in>set [?s, ?s + 1, ?s + 2]. year_ok y"
    using assms(3,4) by (auto simp: year_ok_def)
  have dist: "distinct [?s, ?s + 1, ?s + 2]"
    by simp
  from create_yearly_series_result [OF assms(1,2) ok dist, of d p]
  obtain orig created d1 where
    run: "create_yearly_series d p fd [?s, ?s + 1, ?s + 2] = Inr ((orig, created), d1)"
    and none: "orig = None \<longleftrightarrow> filter ?free [?s, ?s + 1, ?s + 2] = []"
    and some: "\<forall>h. orig = Some h \<longrightarrow>
        map date (h # created) = map (leap_corrected dt) (filter ?free [?s, ?s + 1, ?s + 2])"
    by blast
  from none assms(5) obtain h where h: "orig = Some h"
    by (cases orig) auto
  with some assms(5) have "date h = leap_corrected dt ?s"
    by simp
  moreover from run h assms(1,5) get_safe_date_leap_corrected [OF assms(2,3)]
  have "create_yearly_event_v2 cy d p fd rf =
       (case save_reminders_for_events d1 (h # created) rf of
          Inl x \<Rightarrow> Inl x
        | Inr (rs, d2) \<Rightarrow> Inr (Inr (h # created), d2))"
    by (simp add: create_yearly_event_v2_def Let_def)
  ultimately show ?thesis
    using run h by blast
qed

end
